theory Spec2Isabelle
  imports Main "HOL-Library.Word"
begin

unbundle bit_operations_syntax

section \<open>The toy blockchain of \<open>blockchain/toy_blockchain.go\<close>\<close>

text \<open>
  The program keeps a list of committed blocks and at most one current block that
  collects outstanding transactions. A block is committed by a proof-of-work search
  (\<open>mine\<close>) for a nonce whose SHA-256 digest starts with \<open>difficulty\<close> characters \<open>0\<close>.

  Two functions of the Go standard library are not part of the program and are taken as
  parameters of the model, so that every theorem holds whatever they compute:
  \<^item> \<open>sum256\<close> stands for \<open>crypto/sha256.Sum256\<close>; its \<open>[32]byte\<close> result is read as one
    256-bit word, most significant byte first;
  \<^item> \<open>fmtf\<close> stands for the rendering of a \<open>float64\<close> by the verb \<open>%v\<close> of \<open>fmt\<close>.

  The other library functions the program calls are written out: the verbs \<open>%v\<close> of
  integers, strings, structs and slices and \<open>%x\<close> of a byte array, \<open>strings.Repeat\<close> and
  \<open>strings.HasPrefix\<close>.

  The clock \<open>time.Now().UnixMicro()\<close> is an input: the operations that read it take the
  value read as the argument \<open>now\<close>. The methods with a pointer receiver return the
  updated value. Running out of memory (\<open>strings.Repeat\<close> with a huge count) is not
  modelled.
\<close>

subsection \<open>Outcomes of a call\<close>

text \<open>
  A call returns a value, panics (\<open>strings.Repeat\<close> with a negative count, an index out
  of range) or never returns (the search of \<open>mine\<close> has no bound).
\<close>

datatype 'a result = Returns 'a | Panics | Diverges

fun bind_result :: "'a result \<Rightarrow> ('a \<Rightarrow> 'b result) \<Rightarrow> 'b result" where
  "bind_result (Returns x) f = f x"
| "bind_result Panics f = Panics"
| "bind_result Diverges f = Diverges"

subsection \<open>Data\<close>

text \<open>A \<open>float64\<close> is its IEEE-754 bit pattern; the program only stores and prints it.\<close>

type_synonym float64 = "64 word"

record Transaction =
  payer :: string
  payee :: string
  amt :: float64

text \<open>
  \<open>unixTs\<close> is an \<open>int64\<close> and \<open>nonce\<close> an \<open>int\<close> (64 bits on the usual targets): both are
  64-bit words read as signed numbers, so that \<open>nonce++\<close> wraps around. \<open>difficulty\<close> is
  only compared and passed on, never computed with: it is an integer.
\<close>

record Block =
  data :: "Transaction list"
  prevHash :: string
  unixTs :: "64 word"
  nonce :: "64 word"
  hash :: string

text \<open>\<open>current\<close> is a pointer that may be \<open>nil\<close>: \<open>None\<close> is \<open>nil\<close>.\<close>

record BlockChain =
  current :: "Block option"
  chain :: "Block list"
  difficulty :: int

definition MAX_TXNS_PER_BLOCK :: nat where
  "MAX_TXNS_PER_BLOCK = 5"

subsection \<open>The pieces of \<open>fmt\<close> and \<open>strings\<close> the program uses\<close>

definition digit_char :: "nat \<Rightarrow> char" where
  "digit_char n = ''0123456789abcdef'' ! n"

text \<open>\<open>%v\<close> of an integer: decimal digits, most significant first, \<open>-\<close> before a negative one.\<close>

fun digits :: "nat \<Rightarrow> string" where
  "digits n = (if n < 10 then [digit_char n] else digits (n div 10) @ [digit_char (n mod 10)])"

declare digits.simps [simp del]

definition fmt_int :: "int \<Rightarrow> string" where
  "fmt_int i = (if i < 0 then CHR ''-'' # digits (nat (- i)) else digits (nat i))"

text \<open>\<open>%v\<close> of a struct: its fields between braces, separated by one space; strings are
  printed as they are.\<close>

definition fmt_Transaction :: "(float64 \<Rightarrow> string) \<Rightarrow> Transaction \<Rightarrow> string" where
  "fmt_Transaction fmtf t = ''{'' @ payer t @ '' '' @ payee t @ '' '' @ fmtf (amt t) @ ''}''"

text \<open>\<open>%v\<close> of a slice: its elements between brackets, separated by one space.\<close>

fun join_space :: "string list \<Rightarrow> string" where
  "join_space [] = []"
| "join_space [s] = s"
| "join_space (s # t # ss) = s @ '' '' @ join_space (t # ss)"

definition fmt_data :: "(float64 \<Rightarrow> string) \<Rightarrow> Transaction list \<Rightarrow> string" where
  "fmt_data fmtf ts = ''['' @ join_space (map (fmt_Transaction fmtf) ts) @ '']''"

text \<open>\<open>%x\<close> of a \<open>[32]byte\<close>: 64 lower-case hexadecimal digits.\<close>

definition hex256 :: "256 word \<Rightarrow> string" where
  "hex256 w = map (\<lambda>i. digit_char (unat (drop_bit (4 * (63 - i)) w AND 15))) [0..<64]"

text \<open>\<open>strings.Repeat\<close> panics on a negative count.\<close>

definition Repeat :: "string \<Rightarrow> int \<Rightarrow> string result" where
  "Repeat s count = (if count < 0 then Panics else Returns (concat (replicate (nat count) s)))"

definition HasPrefix :: "string \<Rightarrow> string \<Rightarrow> bool" where
  "HasPrefix s p = (length p \<le> length s \<and> take (length p) s = p)"

subsection \<open>Hashing and mining\<close>

definition SHA256 :: "(string \<Rightarrow> 256 word) \<Rightarrow> string \<Rightarrow> string" where
  "SHA256 sum256 packedBytes = hex256 (sum256 packedBytes)"

definition fixedBlockBytes :: "(float64 \<Rightarrow> string) \<Rightarrow> Block \<Rightarrow> string" where
  "fixedBlockBytes fmtf b = fmt_data fmtf (data b) @ prevHash b @ fmt_int (sint (unixTs b))"

text \<open>
  The loop of \<open>mine\<close>: the test comes first, on the hash the block has on entry. \<open>None\<close> is
  a search that never ends. \<open>zeros\<close> is \<open>strings.Repeat("0", difficulty)\<close>, which the source
  computes anew before each test, always with the same result.
\<close>

partial_function (option) mine_loop ::
  "(string \<Rightarrow> 256 word) \<Rightarrow> string \<Rightarrow> string \<Rightarrow> Block \<Rightarrow> Block option" where
  "mine_loop sum256 fixed zeros b =
     (if HasPrefix (hash b) zeros then Some b
      else mine_loop sum256 fixed zeros
             (b\<lparr>nonce := nonce b + 1,
                hash := SHA256 sum256 (fixed @ fmt_int (sint (nonce b + 1)))\<rparr>))"

declare mine_loop.simps [code]

definition mine :: "(string \<Rightarrow> 256 word) \<Rightarrow> (float64 \<Rightarrow> string) \<Rightarrow> int \<Rightarrow> Block \<Rightarrow> Block result" where
  "mine sum256 fmtf d b =
     bind_result (Repeat ''0'' d) (\<lambda>zeros.
       case mine_loop sum256 (fixedBlockBytes fmtf b) zeros b of
         None \<Rightarrow> Diverges
       | Some b' \<Rightarrow> Returns b')"

subsection \<open>The chain\<close>

definition CreateBlockChain ::
  "(string \<Rightarrow> 256 word) \<Rightarrow> (float64 \<Rightarrow> string) \<Rightarrow> int \<Rightarrow> 64 word \<Rightarrow> BlockChain result" where
  "CreateBlockChain sum256 fmtf d now =
     bind_result
       (mine sum256 fmtf d \<lparr>data = [], prevHash = [], unixTs = now, nonce = 0, hash = []\<rparr>)
       (\<lambda>genesisBlock. Returns \<lparr>current = None, chain = [genesisBlock], difficulty = d\<rparr>)"

text \<open>\<open>bc.chain[len(bc.chain)-1]\<close> panics on an empty slice.\<close>

definition lastBlock :: "BlockChain \<Rightarrow> Block result" where
  "lastBlock bc = (if chain bc = [] then Panics else Returns (last (chain bc)))"

definition newBlock :: "BlockChain \<Rightarrow> Transaction \<Rightarrow> 64 word \<Rightarrow> BlockChain result" where
  "newBlock bc txn now =
     bind_result (lastBlock bc) (\<lambda>lb.
       Returns (bc\<lparr>current :=
         Some \<lparr>data = [txn], prevHash = hash lb, unixTs = now, nonce = 0, hash = []\<rparr>\<rparr>))"

definition CommitBlock ::
  "(string \<Rightarrow> 256 word) \<Rightarrow> (float64 \<Rightarrow> string) \<Rightarrow> BlockChain \<Rightarrow> BlockChain result" where
  "CommitBlock sum256 fmtf bc =
     (case current bc of
        None \<Rightarrow> Returns bc
      | Some c \<Rightarrow>
          bind_result (mine sum256 fmtf (difficulty bc) c) (\<lambda>c'.
            Returns (bc\<lparr>chain := chain bc @ [c'], current := None\<rparr>)))"

definition AddTxn ::
  "(string \<Rightarrow> 256 word) \<Rightarrow> (float64 \<Rightarrow> string) \<Rightarrow> BlockChain \<Rightarrow> Transaction \<Rightarrow> 64 word
     \<Rightarrow> BlockChain result" where
  "AddTxn sum256 fmtf bc txn now =
     (case current bc of
        None \<Rightarrow> bind_result (CommitBlock sum256 fmtf bc) (\<lambda>bc'. newBlock bc' txn now)
      | Some c \<Rightarrow>
          if length (data c) \<ge> MAX_TXNS_PER_BLOCK
          then bind_result (CommitBlock sum256 fmtf bc) (\<lambda>bc'. newBlock bc' txn now)
          else Returns (bc\<lparr>current := Some (c\<lparr>data := data c @ [txn]\<rparr>)\<rparr>))"

text \<open>A caller's sequence of calls on one chain.\<close>

datatype op = OpAddTxn Transaction "64 word" | OpCommitBlock

fun apply_op ::
  "(string \<Rightarrow> 256 word) \<Rightarrow> (float64 \<Rightarrow> string) \<Rightarrow> BlockChain \<Rightarrow> op \<Rightarrow> BlockChain result" where
  "apply_op sum256 fmtf bc (OpAddTxn txn now) = AddTxn sum256 fmtf bc txn now"
| "apply_op sum256 fmtf bc OpCommitBlock = CommitBlock sum256 fmtf bc"

fun run ::
  "(string \<Rightarrow> 256 word) \<Rightarrow> (float64 \<Rightarrow> string) \<Rightarrow> BlockChain \<Rightarrow> op list \<Rightarrow> BlockChain result" where
  "run sum256 fmtf bc [] = Returns bc"
| "run sum256 fmtf bc (x # xs) =
     bind_result (apply_op sum256 fmtf bc x) (\<lambda>bc'. run sum256 fmtf bc' xs)"

subsection \<open>Notions the properties are stated with\<close>

text \<open>The number of characters \<open>0\<close> a string starts with.\<close>

definition leading_zeros :: "string \<Rightarrow> nat" where
  "leading_zeros s = length (takeWhile (\<lambda>c. c = CHR ''0'') s)"

text \<open>The digest the loop computes for the nonce \<open>n\<close>, and the digest recomputed from a
  block's stored fields and nonce.\<close>

definition candidate :: "(string \<Rightarrow> 256 word) \<Rightarrow> string \<Rightarrow> 64 word \<Rightarrow> string" where
  "candidate sum256 fixed n = SHA256 sum256 (fixed @ fmt_int (sint n))"

definition block_digest :: "(string \<Rightarrow> 256 word) \<Rightarrow> (float64 \<Rightarrow> string) \<Rightarrow> Block \<Rightarrow> string" where
  "block_digest sum256 fmtf b = candidate sum256 (fixedBlockBytes fmtf b) (nonce b)"

text \<open>One iteration of the loop body, and \<open>k\<close> of them.\<close>

definition step :: "(string \<Rightarrow> 256 word) \<Rightarrow> string \<Rightarrow> Block \<Rightarrow> Block" where
  "step sum256 fixed b =
     b\<lparr>nonce := nonce b + 1, hash := candidate sum256 fixed (nonce b + 1)\<rparr>"

definition after :: "(string \<Rightarrow> 256 word) \<Rightarrow> string \<Rightarrow> Block \<Rightarrow> nat \<Rightarrow> Block" where
  "after sum256 fixed b k =
     b\<lparr>nonce := nonce b + of_nat k, hash := candidate sum256 fixed (nonce b + of_nat k)\<rparr>"

text \<open>The \<open>k\<close>-th increment of the nonce \<open>n\<close> is the first whose digest passes the test.\<close>

definition first_hit :: "(string \<Rightarrow> 256 word) \<Rightarrow> string \<Rightarrow> string \<Rightarrow> 64 word \<Rightarrow> nat \<Rightarrow> bool" where
  "first_hit sum256 fixed zeros n k \<longleftrightarrow>
     0 < k \<and> HasPrefix (candidate sum256 fixed (n + of_nat k)) zeros \<and>
     (\<forall>j. 0 < j \<and> j < k \<longrightarrow> \<not> HasPrefix (candidate sum256 fixed (n + of_nat j)) zeros)"

text \<open>What a search that returns has done to the block.\<close>

definition mined :: "(string \<Rightarrow> 256 word) \<Rightarrow> string \<Rightarrow> string \<Rightarrow> Block \<Rightarrow> Block \<Rightarrow> bool" where
  "mined sum256 fixed zeros b b' \<longleftrightarrow>
     (if HasPrefix (hash b) zeros then b' = b
      else \<exists>k. first_hit sum256 fixed zeros (nonce b) k \<and> b' = after sum256 fixed b k)"

text \<open>Some increment of the nonce \<open>n\<close> has a digest with \<open>d\<close> leading zeros: the assumption
  under which the search ends.\<close>

definition solvable :: "(string \<Rightarrow> 256 word) \<Rightarrow> string \<Rightarrow> int \<Rightarrow> 64 word \<Rightarrow> bool" where
  "solvable sum256 fixed d n \<longleftrightarrow>
     (\<exists>k. 0 < k \<and> d \<le> int (leading_zeros (candidate sum256 fixed (n + of_nat k))))"

text \<open>Each committed block but the first names the hash of the block before it.\<close>

fun linked :: "Block list \<Rightarrow> bool" where
  "linked [] = True"
| "linked [b] = True"
| "linked (a # b # bs) = (prevHash b = hash a \<and> linked (b # bs))"

text \<open>The same, by index.\<close>

definition linked_at :: "Block list \<Rightarrow> bool" where
  "linked_at bs \<longleftrightarrow> (\<forall>i. 0 < i \<and> i < length bs \<longrightarrow> prevHash (bs ! i) = hash (bs ! (i - 1)))"

text \<open>What the operations keep true of a chain: the committed blocks are linked and the
  current block names the last of them; the genesis block is empty, every other block has
  between one and \<open>MAX_TXNS_PER_BLOCK\<close> transactions; the current block is not mined yet.\<close>

definition link_inv :: "BlockChain \<Rightarrow> bool" where
  "link_inv bc \<longleftrightarrow>
     chain bc \<noteq> [] \<and> linked (chain bc) \<and>
     (case current bc of None \<Rightarrow> True | Some c \<Rightarrow> prevHash c = hash (last (chain bc)))"

definition filled :: "Block \<Rightarrow> bool" where
  "filled b \<longleftrightarrow> 1 \<le> length (data b) \<and> length (data b) \<le> MAX_TXNS_PER_BLOCK"

definition size_inv :: "BlockChain \<Rightarrow> bool" where
  "size_inv bc \<longleftrightarrow>
     chain bc \<noteq> [] \<and> data (hd (chain bc)) = [] \<and> list_all filled (tl (chain bc)) \<and>
     (case current bc of None \<Rightarrow> True | Some c \<Rightarrow> filled c)"

text \<open>A sealed block is valid for the difficulty \<open>d\<close>: its stored hash is the digest
  recomputed from its fields and nonce, and has at least \<open>d\<close> leading zeros.\<close>

definition valid_block :: "(string \<Rightarrow> 256 word) \<Rightarrow> (float64 \<Rightarrow> string) \<Rightarrow> int \<Rightarrow> Block \<Rightarrow> bool" where
  "valid_block sum256 fmtf d b \<longleftrightarrow>
     hash b = block_digest sum256 fmtf b \<and> d \<le> int (leading_zeros (hash b))"

definition pow_inv :: "(string \<Rightarrow> 256 word) \<Rightarrow> (float64 \<Rightarrow> string) \<Rightarrow> BlockChain \<Rightarrow> bool" where
  "pow_inv sum256 fmtf bc \<longleftrightarrow>
     0 < difficulty bc \<and> list_all (valid_block sum256 fmtf (difficulty bc)) (chain bc) \<and>
     (case current bc of None \<Rightarrow> True | Some c \<Rightarrow> hash c = [])"

text \<open>What the serialization shows of a transaction, and the transactions whose text
  has no character that ends a field: no space in \<open>payer\<close> and \<open>payee\<close>, no closing
  brace in the rendered amount.\<close>

definition rendered :: "(float64 \<Rightarrow> string) \<Rightarrow> Transaction \<Rightarrow> string \<times> string \<times> string" where
  "rendered fmtf t = (payer t, payee t, fmtf (amt t))"

definition plain :: "(float64 \<Rightarrow> string) \<Rightarrow> Transaction \<Rightarrow> bool" where
  "plain fmtf t \<longleftrightarrow>
     CHR '' '' \<notin> set (payer t) \<and> CHR '' '' \<notin> set (payee t) \<and> CHR ''}'' \<notin> set (fmtf (amt t))"

text \<open>The text that follows the first element of a slice: the other elements, each after
  a space, the closing bracket, and what comes after the slice.\<close>

fun sep_rest :: "(float64 \<Rightarrow> string) \<Rightarrow> Transaction list \<Rightarrow> string \<Rightarrow> string" where
  "sep_rest fmtf [] r = CHR '']'' # r"
| "sep_rest fmtf (t # ts) r = CHR '' '' # fmt_Transaction fmtf t @ sep_rest fmtf ts r"

text \<open>A digest function and a rendering of amounts for the instances: the digest of a
  string that ends in \<open>3\<close> is its length (so it starts with zeros), every other digest is
  all \<open>f\<close>.\<close>

definition demo_sum256 :: "string \<Rightarrow> 256 word" where
  "demo_sum256 bs = (if last bs = CHR ''3'' then of_nat (length bs) else - 1)"

definition demo_fmtf :: "float64 \<Rightarrow> string" where
  "demo_fmtf w = digits (unat w)"

text \<open>A run for the instances, at difficulty 1 with the clock reading 17 at creation: the
  chain after creation; two transactions, a commit and a third transaction, and the
  chain after them; six transactions in a row, and the chain after them.\<close>

definition demo_bc0 :: BlockChain where
  "demo_bc0 =
     \<lparr>current = None,
      chain = [\<lparr>data = [], prevHash = [], unixTs = 17, nonce = 3,
                hash = ''0000000000000000000000000000000000000000000000000000000000000005''\<rparr>],
      difficulty = 1\<rparr>"

definition demo_ops :: "op list" where
  "demo_ops =
     [OpAddTxn \<lparr>payer = ''alice'', payee = ''bob'', amt = 10\<rparr> 20,
      OpAddTxn \<lparr>payer = ''bob'', payee = ''alice'', amt = 35\<rparr> 21,
      OpCommitBlock,
      OpAddTxn \<lparr>payer = ''clark'', payee = ''bob'', amt = 5\<rparr> 30]"

definition demo_bc :: BlockChain where
  "demo_bc =
     \<lparr>current = Some \<lparr>data = [\<lparr>payer = ''clark'', payee = ''bob'', amt = 5\<rparr>],
         prevHash = ''0000000000000000000000000000000000000000000000000000000000000062'',
         unixTs = 30, nonce = 0, hash = []\<rparr>,
      chain = [\<lparr>data = [], prevHash = [], unixTs = 17, nonce = 3,
                hash = ''0000000000000000000000000000000000000000000000000000000000000005''\<rparr>,
               \<lparr>data = [\<lparr>payer = ''alice'', payee = ''bob'', amt = 10\<rparr>,
                        \<lparr>payer = ''bob'', payee = ''alice'', amt = 35\<rparr>],
                prevHash = ''0000000000000000000000000000000000000000000000000000000000000005'',
                unixTs = 20, nonce = 3,
                hash = ''0000000000000000000000000000000000000000000000000000000000000062''\<rparr>],
      difficulty = 1\<rparr>"

definition demo_txn :: "nat \<Rightarrow> Transaction" where
  "demo_txn i = \<lparr>payer = ''a'', payee = ''b'', amt = of_nat i\<rparr>"

definition demo_bc6 :: BlockChain where
  "demo_bc6 =
     \<lparr>current = Some \<lparr>data = [demo_txn 6],
         prevHash = ''000000000000000000000000000000000000000000000000000000000000006c'',
         unixTs = 26, nonce = 0, hash = []\<rparr>,
      chain = [\<lparr>data = [], prevHash = [], unixTs = 17, nonce = 3,
                hash = ''0000000000000000000000000000000000000000000000000000000000000005''\<rparr>,
               \<lparr>data = [demo_txn 1, demo_txn 2, demo_txn 3, demo_txn 4, demo_txn 5],
                prevHash = ''0000000000000000000000000000000000000000000000000000000000000005'',
                unixTs = 21, nonce = 3,
                hash = ''000000000000000000000000000000000000000000000000000000000000006c''\<rparr>],
      difficulty = 1\<rparr>"

section \<open>The search of \<open>mine\<close>\<close>

subsection \<open>The loop\<close>

lemma mine_loop_stop:
  "HasPrefix (hash b) zeros \<Longrightarrow> mine_loop sum256 fixed zeros b = Some b"
  by (subst mine_loop.simps) simp

lemma mine_loop_step:
  "\<not> HasPrefix (hash b) zeros \<Longrightarrow>
   mine_loop sum256 fixed zeros b = mine_loop sum256 fixed zeros (step sum256 fixed b)"
  by (subst mine_loop.simps) (simp add: candidate_def step_def)

lemma after_step: "after sum256 fixed (step sum256 fixed b) k = after sum256 fixed b (Suc k)"
  by (simp add: after_def step_def add.assoc)

lemma after_one: "after sum256 fixed b (Suc 0) = step sum256 fixed b"
  by (simp add: after_def step_def)

lemma nonce_step: "nonce (step sum256 fixed b) = nonce b + 1"
  by (simp add: step_def)

lemma hash_step: "hash (step sum256 fixed b) = candidate sum256 fixed (nonce b + 1)"
  by (simp add: step_def)

lemma nonce_after: "nonce (after sum256 fixed b k) = nonce b + of_nat k"
  by (simp add: after_def)

lemma hash_after: "hash (after sum256 fixed b k) = candidate sum256 fixed (nonce b + of_nat k)"
  by (simp add: after_def)

lemma first_hit_one:
  "HasPrefix (candidate sum256 fixed (n + 1)) zeros \<Longrightarrow> first_hit sum256 fixed zeros n (Suc 0)"
  by (simp add: first_hit_def)

lemma first_hit_Suc:
  assumes "\<not> HasPrefix (candidate sum256 fixed (n + 1)) zeros"
  shows "first_hit sum256 fixed zeros n (Suc k) \<longleftrightarrow> first_hit sum256 fixed zeros (n + 1) k"
proof
  assume h: "first_hit sum256 fixed zeros n (Suc k)"
  have k: "0 < k"
  proof (rule ccontr)
    assume "\<not> 0 < k"
    with h assms show False by (simp add: first_hit_def)
  qed
  have "\<not> HasPrefix (candidate sum256 fixed (n + 1 + of_nat j)) zeros" if "0 < j" "j < k" for j
    using h that by (auto simp: first_hit_def add.assoc dest!: spec [of _ "Suc j"])
  with h k show "first_hit sum256 fixed zeros (n + 1) k"
    by (simp add: first_hit_def add.assoc)
next
  assume h: "first_hit sum256 fixed zeros (n + 1) k"
  have "\<not> HasPrefix (candidate sum256 fixed (n + of_nat j)) zeros" if "0 < j" "j < Suc k" for j
  proof (cases j)
    case 0
    with that show ?thesis by simp
  next
    case (Suc i)
    show ?thesis
    proof (cases "i = 0")
      case True
      with Suc assms show ?thesis by simp
    next
      case False
      with Suc that h show ?thesis
        by (auto simp: first_hit_def add.assoc dest!: spec [of _ i])
    qed
  qed
  with h show "first_hit sum256 fixed zeros n (Suc k)"
    by (simp add: first_hit_def add.assoc)
qed

lemma mine_loop_first:
  "\<not> HasPrefix (hash b) zeros \<Longrightarrow> first_hit sum256 fixed zeros (nonce b) k \<Longrightarrow>
   mine_loop sum256 fixed zeros b = Some (after sum256 fixed b k)"
proof (induction k arbitrary: b)
  case 0
  then show ?case by (simp add: first_hit_def)
next
  case (Suc k)
  let ?b1 = "step sum256 fixed b"
  have step: "mine_loop sum256 fixed zeros b = mine_loop sum256 fixed zeros ?b1"
    using Suc.prems(1) by (rule mine_loop_step)
  show ?case
  proof (cases "HasPrefix (candidate sum256 fixed (nonce b + 1)) zeros")
    case True
    have "k = 0"
    proof (rule ccontr)
      assume "k \<noteq> 0"
      with Suc.prems(2) True show False
        by (auto simp: first_hit_def dest!: spec [of _ 1])
    qed
    moreover from True have "mine_loop sum256 fixed zeros ?b1 = Some ?b1"
      by (intro mine_loop_stop) (simp add: hash_step)
    ultimately show ?thesis using step by (simp add: after_one)
  next
    case False
    then have n1: "\<not> HasPrefix (hash ?b1) zeros"
      by (simp add: hash_step)
    from Suc.prems(2) False have "first_hit sum256 fixed zeros (nonce ?b1) k"
      by (simp add: first_hit_Suc nonce_step)
    from Suc.IH [OF n1 this] step show ?thesis
      by (simp add: after_step)
  qed
qed

lemma mine_loop_Some:
  assumes "mine_loop sum256 fixed zeros b = Some b'"
  shows "mined sum256 fixed zeros b b'"
proof (rule mine_loop.raw_induct [OF _ assms])
  fix loop s f z c c'
  assume IH: "\<And>s f z c c'. loop s f z c = Some c' \<Longrightarrow> mined s f z c c'"
    and body: "(if HasPrefix (hash c) z then Some c
      else loop s f z (c\<lparr>nonce := nonce c + 1,
                 hash := SHA256 s (f @ fmt_int (sint (nonce c + 1)))\<rparr>)) = Some c'"
  show "mined s f z c c'"
  proof (cases "HasPrefix (hash c) z")
    case True
    with body show ?thesis by (simp add: mined_def)
  next
    case False
    let ?c1 = "step s f c"
    from False body have call: "loop s f z ?c1 = Some c'"
      by (simp add: candidate_def step_def)
    have m: "mined s f z ?c1 c'"
      using call by (rule IH)
    have "\<exists>k. first_hit s f z (nonce c) k \<and> c' = after s f c k"
    proof (cases "HasPrefix (candidate s f (nonce c + 1)) z")
      case True
      with m have "c' = ?c1" by (simp add: mined_def hash_step)
      with True show ?thesis by (intro exI [of _ "Suc 0"]) (simp add: first_hit_one after_one)
    next
      case F: False
      with m obtain k where "first_hit s f z (nonce c + 1) k" "c' = after s f ?c1 k"
        by (auto simp: mined_def hash_step nonce_step)
      with F show ?thesis
        by (intro exI [of _ "Suc k"]) (simp add: first_hit_Suc after_step)
    qed
    with False show ?thesis by (simp add: mined_def)
  qed
qed

lemma mine_loop_iff:
  "mine_loop sum256 fixed zeros b = Some b' \<longleftrightarrow> mined sum256 fixed zeros b b'"
proof
  assume "mined sum256 fixed zeros b b'"
  then show "mine_loop sum256 fixed zeros b = Some b'"
    by (auto simp: mined_def mine_loop_stop mine_loop_first split: if_splits)
qed (rule mine_loop_Some)

subsection \<open>The test of the loop and the digests\<close>

lemma Repeat_zero_char: "0 \<le> d \<Longrightarrow> Repeat ''0'' d = Returns (replicate (nat d) CHR ''0'')"
  by (simp add: Repeat_def)

lemma Repeat_negative: "d < 0 \<Longrightarrow> Repeat s d = Panics"
  by (simp add: Repeat_def)

lemma HasPrefix_zeros: "HasPrefix s (replicate n CHR ''0'') \<longleftrightarrow> n \<le> leading_zeros s"
proof (induction s arbitrary: n)
  case Nil
  then show ?case by (simp add: HasPrefix_def leading_zeros_def)
next
  case (Cons c s)
  show ?case
  proof (cases n)
    case 0
    then show ?thesis by (simp add: HasPrefix_def)
  next
    case (Suc m)
    with Cons [of m] show ?thesis
      by (auto simp: HasPrefix_def leading_zeros_def)
  qed
qed

lemma HasPrefix_zeros_int:
  "0 \<le> d \<Longrightarrow> HasPrefix s (replicate (nat d) CHR ''0'') \<longleftrightarrow> d \<le> int (leading_zeros s)"
  by (auto simp: HasPrefix_zeros)

lemma length_hex256: "length (hex256 w) = 64"
  by (simp add: hex256_def)

lemma length_SHA256: "length (SHA256 sum256 bs) = 64"
  by (simp add: SHA256_def length_hex256)

lemma length_candidate: "length (candidate sum256 fixed n) = 64"
  by (simp add: candidate_def length_SHA256)

lemma mine_negative: "d < 0 \<Longrightarrow> mine sum256 fmtf d b = Panics"
  by (simp add: mine_def Repeat_def)

lemma mine_Returns_iff:
  "mine sum256 fmtf d b = Returns b' \<longleftrightarrow>
   0 \<le> d \<and> mined sum256 (fixedBlockBytes fmtf b) (replicate (nat d) CHR ''0'') b b'"
proof (cases "d < 0")
  case True
  then show ?thesis by (simp add: mine_negative)
next
  case False
  then have "Repeat ''0'' d = Returns (replicate (nat d) CHR ''0'')"
    by (simp add: Repeat_zero_char)
  with False show ?thesis
    by (auto simp: mine_def mine_loop_iff [symmetric] split: option.splits)
qed

lemma fixedBlockBytes_after: "fixedBlockBytes fmtf (after sum256 fixed b k) = fixedBlockBytes fmtf b"
  by (simp add: fixedBlockBytes_def after_def)

lemma mined_fields:
  "mined sum256 fixed zeros b b' \<Longrightarrow>
   data b' = data b \<and> prevHash b' = prevHash b \<and> unixTs b' = unixTs b \<and> HasPrefix (hash b') zeros"
  by (auto simp: mined_def after_def first_hit_def split: if_splits)

lemma mine_fields:
  assumes "mine sum256 fmtf d b = Returns b'"
  shows "data b' = data b" "prevHash b' = prevHash b" "unixTs b' = unixTs b"
    "0 \<le> d" "d \<le> int (leading_zeros (hash b'))"
  using assms mined_fields [of sum256 "fixedBlockBytes fmtf b" "replicate (nat d) CHR ''0''" b b']
  by (simp_all add: mine_Returns_iff HasPrefix_zeros_int)

lemma not_HasPrefix_empty: "0 < d \<Longrightarrow> \<not> HasPrefix [] (replicate (nat d) CHR ''0'')"
  by (simp add: HasPrefix_def)

text \<open>the digest of a block mined from an empty hash\<close>
lemma mine_digest:
  assumes "mine sum256 fmtf d b = Returns b'" "0 < d" "hash b = []"
  shows "hash b' = block_digest sum256 fmtf b'"
proof -
  from assms(1) have m: "mined sum256 (fixedBlockBytes fmtf b) (replicate (nat d) CHR ''0'') b b'"
    by (simp add: mine_Returns_iff)
  from assms(2,3) have "\<not> HasPrefix (hash b) (replicate (nat d) CHR ''0'')"
    by (simp add: not_HasPrefix_empty)
  with m obtain k where "b' = after sum256 (fixedBlockBytes fmtf b) b k"
    by (auto simp: mined_def)
  then show ?thesis
    by (simp add: block_digest_def fixedBlockBytes_after hash_after nonce_after)
qed

lemma solvable_first_hit:
  assumes "0 \<le> d" "solvable sum256 fixed d n"
  shows "\<exists>k. first_hit sum256 fixed (replicate (nat d) CHR ''0'') n k"
proof -
  let ?P = "\<lambda>k. 0 < k \<and> HasPrefix (candidate sum256 fixed (n + of_nat k)) (replicate (nat d) CHR ''0'')"
  from assms have ex: "\<exists>k. ?P k"
    by (auto simp: solvable_def HasPrefix_zeros_int)
  then have "?P (LEAST k. ?P k)" by (rule LeastI_ex)
  moreover have "\<not> ?P j" if "j < (LEAST k. ?P k)" for j
    using that by (rule not_less_Least)
  ultimately show ?thesis
    unfolding first_hit_def by blast
qed

lemma first_hit_solvable:
  "0 \<le> d \<Longrightarrow> first_hit sum256 fixed (replicate (nat d) CHR ''0'') n k \<Longrightarrow> solvable sum256 fixed d n"
  by (auto simp: first_hit_def solvable_def HasPrefix_zeros_int)

text \<open>mining a block with an empty hash returns exactly when the search can succeed\<close>
lemma mine_returns:
  assumes "0 \<le> d" "solvable sum256 (fixedBlockBytes fmtf b) d (nonce b)"
  shows "\<exists>b'. mine sum256 fmtf d b = Returns b'"
proof (cases "HasPrefix (hash b) (replicate (nat d) CHR ''0'')")
  case True
  with assms(1) show ?thesis by (simp add: mine_Returns_iff mined_def)
next
  case False
  from solvable_first_hit [OF assms] obtain k
    where "first_hit sum256 (fixedBlockBytes fmtf b) (replicate (nat d) CHR ''0'') (nonce b) k" ..
  with False assms(1) show ?thesis by (auto simp: mine_Returns_iff mined_def)
qed

lemma mine_zero: "hash b = [] \<Longrightarrow> mine sum256 fmtf 0 b = Returns b"
  by (simp add: mine_Returns_iff mined_def HasPrefix_def)

lemma mine_Diverges_iff:
  "mine sum256 fmtf d b = Diverges \<longleftrightarrow>
   0 \<le> d \<and> \<not> HasPrefix (hash b) (replicate (nat d) CHR ''0'') \<and>
   \<not> solvable sum256 (fixedBlockBytes fmtf b) d (nonce b)"
proof (cases "d < 0")
  case True
  then show ?thesis by (simp add: mine_negative)
next
  case d: False
  have "mine sum256 fmtf d b = Diverges \<longleftrightarrow> (\<forall>b'. mine sum256 fmtf d b \<noteq> Returns b')"
    using d by (auto simp: mine_def Repeat_def split: option.splits)
  also have "\<dots> \<longleftrightarrow> \<not> HasPrefix (hash b) (replicate (nat d) CHR ''0'') \<and>
   \<not> solvable sum256 (fixedBlockBytes fmtf b) d (nonce b)"
    using d solvable_first_hit [of d sum256 "fixedBlockBytes fmtf b" "nonce b"]
      first_hit_solvable [of d sum256 "fixedBlockBytes fmtf b" "nonce b"]
    by (auto simp: mine_Returns_iff mined_def)
  finally show ?thesis using d by simp
qed

section \<open>The operations on a chain\<close>

lemma linked_append:
  "linked (bs @ [c]) \<longleftrightarrow> linked bs \<and> (bs = [] \<or> prevHash c = hash (last bs))"
  by (induction bs rule: linked.induct) auto

lemma linked_iff_linked_at: "linked bs \<longleftrightarrow> linked_at bs"
proof (induction bs rule: linked.induct)
  case 1
  show ?case by (simp add: linked_at_def)
next
  case (2 b)
  show ?case by (simp add: linked_at_def)
next
  case (3 a b bs)
  have "linked_at (a # b # bs) \<longleftrightarrow> prevHash b = hash a \<and> linked_at (b # bs)"
  proof
    assume h: "linked_at (a # b # bs)"
    have "prevHash ((b # bs) ! i) = hash ((b # bs) ! (i - 1))" if "0 < i" "i < length (b # bs)" for i
      using h that unfolding linked_at_def by (auto dest!: spec [of _ "Suc i"])
    moreover from h have "prevHash b = hash a"
      unfolding linked_at_def by (auto dest!: spec [of _ 1])
    ultimately show "prevHash b = hash a \<and> linked_at (b # bs)"
      by (simp add: linked_at_def)
  next
    assume h: "prevHash b = hash a \<and> linked_at (b # bs)"
    have "prevHash ((a # b # bs) ! i) = hash ((a # b # bs) ! (i - 1))"
      if "0 < i" "i < length (a # b # bs)" for i
    proof (cases i)
      case 0
      with that show ?thesis by simp
    next
      case (Suc j)
      show ?thesis
      proof (cases j)
        case 0
        with Suc h show ?thesis by simp
      next
        case (Suc k)
        with \<open>i = Suc j\<close> that h show ?thesis
          unfolding linked_at_def by (auto dest!: spec [of _ j])
      qed
    qed
    then show "linked_at (a # b # bs)" by (simp add: linked_at_def)
  qed
  with 3 show ?case by simp
qed

lemma CommitBlock_None: "current bc = None \<Longrightarrow> CommitBlock sum256 fmtf bc = Returns bc"
  by (simp add: CommitBlock_def)

lemma CommitBlock_Some:
  "current bc = Some c \<Longrightarrow>
   CommitBlock sum256 fmtf bc =
     bind_result (mine sum256 fmtf (difficulty bc) c)
       (\<lambda>c'. Returns (bc\<lparr>chain := chain bc @ [c'], current := None\<rparr>))"
  by (simp add: CommitBlock_def)

lemma bind_result_Returns:
  "bind_result r f = Returns y \<longleftrightarrow> (\<exists>x. r = Returns x \<and> f x = Returns y)"
  by (cases r) simp_all

lemma CommitBlock_Returns:
  assumes "CommitBlock sum256 fmtf bc = Returns bc'"
  shows "(current bc = None \<and> bc' = bc) \<or>
         (\<exists>c c'. current bc = Some c \<and> mine sum256 fmtf (difficulty bc) c = Returns c' \<and>
                  bc' = bc\<lparr>chain := chain bc @ [c'], current := None\<rparr>)"
  using assms by (cases "current bc") (auto simp: CommitBlock_def bind_result_Returns)

lemma newBlock_Returns:
  "newBlock bc txn now = Returns bc' \<longleftrightarrow>
   chain bc \<noteq> [] \<and>
   bc' = bc\<lparr>current := Some \<lparr>data = [txn], prevHash = hash (last (chain bc)), unixTs = now,
                               nonce = 0, hash = []\<rparr>\<rparr>"
  by (auto simp: newBlock_def lastBlock_def)

lemma AddTxn_Returns:
  assumes "AddTxn sum256 fmtf bc txn now = Returns bc'"
  shows "(\<exists>c. current bc = Some c \<and> length (data c) < MAX_TXNS_PER_BLOCK \<and>
              bc' = bc\<lparr>current := Some (c\<lparr>data := data c @ [txn]\<rparr>)\<rparr>) \<or>
         (\<exists>bc1. CommitBlock sum256 fmtf bc = Returns bc1 \<and> newBlock bc1 txn now = Returns bc')"
  using assms
  by (cases "current bc") (auto simp: AddTxn_def bind_result_Returns split: if_splits)

lemma run_invariant:
  assumes step: "\<And>bc x bc'. I bc \<Longrightarrow> apply_op sum256 fmtf bc x = Returns bc' \<Longrightarrow> I bc'"
  shows "I bc \<Longrightarrow> run sum256 fmtf bc ops = Returns bc' \<Longrightarrow> I bc'"
proof (induction ops arbitrary: bc)
  case Nil
  then show ?case by simp
next
  case (Cons x xs)
  from Cons.prems(2) obtain bc1 where a: "apply_op sum256 fmtf bc x = Returns bc1"
    and r: "run sum256 fmtf bc1 xs = Returns bc'"
    by (auto simp: bind_result_Returns)
  from step [OF Cons.prems(1) a] have "I bc1" .
  from Cons.IH [OF this r] show ?case .
qed

subsection \<open>The committed blocks stay linked\<close>

lemma CreateBlockChain_Returns:
  "CreateBlockChain sum256 fmtf d now = Returns bc \<longleftrightarrow>
   (\<exists>g. mine sum256 fmtf d \<lparr>data = [], prevHash = [], unixTs = now, nonce = 0, hash = []\<rparr> = Returns g \<and>
        bc = \<lparr>current = None, chain = [g], difficulty = d\<rparr>)"
  by (auto simp: CreateBlockChain_def bind_result_Returns)

lemma link_inv_CreateBlockChain:
  "CreateBlockChain sum256 fmtf d now = Returns bc \<Longrightarrow> link_inv bc"
  by (auto simp: CreateBlockChain_Returns link_inv_def)

lemma link_inv_CommitBlock:
  assumes "link_inv bc" "CommitBlock sum256 fmtf bc = Returns bc'"
  shows "link_inv bc'" "current bc' = None"
proof -
  from CommitBlock_Returns [OF assms(2)]
  have "link_inv bc' \<and> current bc' = None"
  proof
    assume "current bc = None \<and> bc' = bc"
    with assms(1) show ?thesis by simp
  next
    assume "\<exists>c c'. current bc = Some c \<and> mine sum256 fmtf (difficulty bc) c = Returns c' \<and>
                  bc' = bc\<lparr>chain := chain bc @ [c'], current := None\<rparr>"
    then obtain c c' where c: "current bc = Some c"
      and m: "mine sum256 fmtf (difficulty bc) c = Returns c'"
      and bc': "bc' = bc\<lparr>chain := chain bc @ [c'], current := None\<rparr>" by blast
    from mine_fields(2) [OF m] have "prevHash c' = prevHash c" .
    with assms(1) c bc' show ?thesis by (simp add: link_inv_def linked_append)
  qed
  then show "link_inv bc'" "current bc' = None" by simp_all
qed

lemma link_inv_newBlock:
  "link_inv bc \<Longrightarrow> newBlock bc txn now = Returns bc' \<Longrightarrow> link_inv bc'"
  by (auto simp: newBlock_Returns link_inv_def)

lemma link_inv_AddTxn:
  assumes "link_inv bc" "AddTxn sum256 fmtf bc txn now = Returns bc'"
  shows "link_inv bc'"
  using AddTxn_Returns [OF assms(2)]
proof
  assume "\<exists>c. current bc = Some c \<and> length (data c) < MAX_TXNS_PER_BLOCK \<and>
              bc' = bc\<lparr>current := Some (c\<lparr>data := data c @ [txn]\<rparr>)\<rparr>"
  with assms(1) show ?thesis by (auto simp: link_inv_def)
next
  assume "\<exists>bc1. CommitBlock sum256 fmtf bc = Returns bc1 \<and> newBlock bc1 txn now = Returns bc'"
  then obtain bc1 where "CommitBlock sum256 fmtf bc = Returns bc1" "newBlock bc1 txn now = Returns bc'"
    by blast
  with assms(1) show ?thesis by (blast intro: link_inv_CommitBlock link_inv_newBlock)
qed

lemma link_inv_apply_op:
  "link_inv bc \<Longrightarrow> apply_op sum256 fmtf bc x = Returns bc' \<Longrightarrow> link_inv bc'"
  by (cases x) (auto intro: link_inv_AddTxn link_inv_CommitBlock)

lemma link_inv_run:
  "link_inv bc \<Longrightarrow> run sum256 fmtf bc ops = Returns bc' \<Longrightarrow> link_inv bc'"
  by (rule run_invariant [where I = link_inv]) (rule link_inv_apply_op)

subsection \<open>The sizes of the blocks\<close>

lemma size_inv_CreateBlockChain:
  assumes "CreateBlockChain sum256 fmtf d now = Returns bc"
  shows "size_inv bc"
proof -
  from assms obtain g
    where m: "mine sum256 fmtf d \<lparr>data = [], prevHash = [], unixTs = now, nonce = 0, hash = []\<rparr> = Returns g"
      and bc: "bc = \<lparr>current = None, chain = [g], difficulty = d\<rparr>"
    by (auto simp: CreateBlockChain_Returns)
  from mine_fields(1) [OF m] have "data g = []" by simp
  with bc show ?thesis by (simp add: size_inv_def)
qed

lemma size_inv_CommitBlock:
  assumes "size_inv bc" "CommitBlock sum256 fmtf bc = Returns bc'"
  shows "size_inv bc'"
  using CommitBlock_Returns [OF assms(2)]
proof
  assume "current bc = None \<and> bc' = bc"
  with assms(1) show ?thesis by simp
next
  assume "\<exists>c c'. current bc = Some c \<and> mine sum256 fmtf (difficulty bc) c = Returns c' \<and>
                bc' = bc\<lparr>chain := chain bc @ [c'], current := None\<rparr>"
  then obtain c c' where c: "current bc = Some c"
    and m: "mine sum256 fmtf (difficulty bc) c = Returns c'"
    and bc': "bc' = bc\<lparr>chain := chain bc @ [c'], current := None\<rparr>" by blast
  from mine_fields(1) [OF m] have "data c' = data c" .
  then have "filled c' = filled c" by (simp add: filled_def)
  with assms(1) c bc' show ?thesis by (simp add: size_inv_def)
qed

lemma size_inv_newBlock:
  "size_inv bc \<Longrightarrow> newBlock bc txn now = Returns bc' \<Longrightarrow> size_inv bc'"
  by (auto simp: newBlock_Returns size_inv_def filled_def MAX_TXNS_PER_BLOCK_def)

lemma size_inv_AddTxn:
  assumes "size_inv bc" "AddTxn sum256 fmtf bc txn now = Returns bc'"
  shows "size_inv bc'"
  using AddTxn_Returns [OF assms(2)]
proof
  assume "\<exists>c. current bc = Some c \<and> length (data c) < MAX_TXNS_PER_BLOCK \<and>
              bc' = bc\<lparr>current := Some (c\<lparr>data := data c @ [txn]\<rparr>)\<rparr>"
  with assms(1) show ?thesis by (auto simp: size_inv_def filled_def)
next
  assume "\<exists>bc1. CommitBlock sum256 fmtf bc = Returns bc1 \<and> newBlock bc1 txn now = Returns bc'"
  then obtain bc1 where "CommitBlock sum256 fmtf bc = Returns bc1" "newBlock bc1 txn now = Returns bc'"
    by blast
  with assms(1) show ?thesis by (blast intro: size_inv_CommitBlock size_inv_newBlock)
qed

lemma size_inv_apply_op:
  "size_inv bc \<Longrightarrow> apply_op sum256 fmtf bc x = Returns bc' \<Longrightarrow> size_inv bc'"
  by (cases x) (auto intro: size_inv_AddTxn size_inv_CommitBlock)

lemma size_inv_run:
  "size_inv bc \<Longrightarrow> run sum256 fmtf bc ops = Returns bc' \<Longrightarrow> size_inv bc'"
  by (rule run_invariant [where I = size_inv]) (rule size_inv_apply_op)

subsection \<open>The proof of work of the committed blocks\<close>

lemma pow_inv_CreateBlockChain:
  assumes "CreateBlockChain sum256 fmtf d now = Returns bc" "0 < d"
  shows "pow_inv sum256 fmtf bc"
proof -
  from assms obtain g
    where m: "mine sum256 fmtf d \<lparr>data = [], prevHash = [], unixTs = now, nonce = 0, hash = []\<rparr> = Returns g"
      and bc: "bc = \<lparr>current = None, chain = [g], difficulty = d\<rparr>"
    by (auto simp: CreateBlockChain_Returns)
  from mine_digest [OF m assms(2)] mine_fields(5) [OF m] have "valid_block sum256 fmtf d g"
    by (simp add: valid_block_def)
  with bc assms(2) show ?thesis by (simp add: pow_inv_def)
qed

lemma pow_inv_CommitBlock:
  assumes "pow_inv sum256 fmtf bc" "CommitBlock sum256 fmtf bc = Returns bc'"
  shows "pow_inv sum256 fmtf bc'"
  using CommitBlock_Returns [OF assms(2)]
proof
  assume "current bc = None \<and> bc' = bc"
  with assms(1) show ?thesis by simp
next
  assume "\<exists>c c'. current bc = Some c \<and> mine sum256 fmtf (difficulty bc) c = Returns c' \<and>
                bc' = bc\<lparr>chain := chain bc @ [c'], current := None\<rparr>"
  then obtain c c' where c: "current bc = Some c"
    and m: "mine sum256 fmtf (difficulty bc) c = Returns c'"
    and bc': "bc' = bc\<lparr>chain := chain bc @ [c'], current := None\<rparr>" by blast
  from assms(1) c have d: "0 < difficulty bc" and h: "hash c = []"
    by (simp_all add: pow_inv_def)
  from mine_digest [OF m d h] mine_fields(5) [OF m]
  have "valid_block sum256 fmtf (difficulty bc) c'"
    by (simp add: valid_block_def)
  with assms(1) bc' show ?thesis by (simp add: pow_inv_def)
qed

lemma pow_inv_newBlock:
  "pow_inv sum256 fmtf bc \<Longrightarrow> newBlock bc txn now = Returns bc' \<Longrightarrow> pow_inv sum256 fmtf bc'"
  by (auto simp: newBlock_Returns pow_inv_def)

lemma pow_inv_AddTxn:
  assumes "pow_inv sum256 fmtf bc" "AddTxn sum256 fmtf bc txn now = Returns bc'"
  shows "pow_inv sum256 fmtf bc'"
  using AddTxn_Returns [OF assms(2)]
proof
  assume "\<exists>c. current bc = Some c \<and> length (data c) < MAX_TXNS_PER_BLOCK \<and>
              bc' = bc\<lparr>current := Some (c\<lparr>data := data c @ [txn]\<rparr>)\<rparr>"
  with assms(1) show ?thesis by (auto simp: pow_inv_def)
next
  assume "\<exists>bc1. CommitBlock sum256 fmtf bc = Returns bc1 \<and> newBlock bc1 txn now = Returns bc'"
  then obtain bc1 where "CommitBlock sum256 fmtf bc = Returns bc1" "newBlock bc1 txn now = Returns bc'"
    by blast
  with assms(1) show ?thesis by (blast intro: pow_inv_CommitBlock pow_inv_newBlock)
qed

lemma pow_inv_apply_op:
  "pow_inv sum256 fmtf bc \<Longrightarrow> apply_op sum256 fmtf bc x = Returns bc' \<Longrightarrow> pow_inv sum256 fmtf bc'"
  by (cases x) (auto intro: pow_inv_AddTxn pow_inv_CommitBlock)

lemma pow_inv_run:
  "pow_inv sum256 fmtf bc \<Longrightarrow> run sum256 fmtf bc ops = Returns bc' \<Longrightarrow> pow_inv sum256 fmtf bc'"
  by (rule run_invariant [where I = "pow_inv sum256 fmtf"]) (rule pow_inv_apply_op)

lemma difficulty_apply_op:
  "apply_op sum256 fmtf bc x = Returns bc' \<Longrightarrow> difficulty bc' = difficulty bc"
  by (cases x)
    (auto dest!: AddTxn_Returns CommitBlock_Returns simp: newBlock_Returns)

lemma difficulty_run:
  "run sum256 fmtf bc ops = Returns bc' \<Longrightarrow> difficulty bc' = difficulty bc"
  using run_invariant [where I = "\<lambda>b. difficulty b = difficulty bc" and bc = bc]
  by (simp add: difficulty_apply_op)

section \<open>More on the search\<close>

lemma sint_add_of_nat:
  fixes w :: "64 word"
  assumes "sint w + int k < 2 ^ 63"
  shows "sint (w + of_nat k) = sint w + int k"
proof -
  have "w + of_nat k = word_of_int (sint w + int k)"
    by simp
  then have "sint (w + of_nat k) = signed_take_bit 63 (sint w + int k)"
    by (simp only: sint_sbintrunc') simp
  moreover have "- (2 ^ 63) \<le> sint w + int k"
    using sint_ge [of w] by simp
  ultimately show ?thesis
    using assms by (simp add: signed_take_bit_int_eq_self)
qed

lemma leading_zeros_le_length: "leading_zeros s \<le> length s"
  by (simp add: leading_zeros_def length_takeWhile_le)

lemma solvable_zero: "d \<le> 0 \<Longrightarrow> solvable sum256 fixed d n"
  unfolding solvable_def by (intro exI [of _ 1]) simp

lemma not_solvable_beyond_64: "64 < d \<Longrightarrow> \<not> solvable sum256 fixed d n"
proof
  assume d: "64 < d" and "solvable sum256 fixed d n"
  then obtain k where "d \<le> int (leading_zeros (candidate sum256 fixed (n + of_nat k)))"
    by (auto simp: solvable_def)
  moreover have "leading_zeros (candidate sum256 fixed (n + of_nat k)) \<le> 64"
    using leading_zeros_le_length [of "candidate sum256 fixed (n + of_nat k)"]
    by (simp add: length_candidate)
  ultimately show False using d by simp
qed

lemma mine_returns_iff:
  assumes "0 \<le> d" "hash b = []"
  shows "(\<exists>b'. mine sum256 fmtf d b = Returns b') \<longleftrightarrow>
         solvable sum256 (fixedBlockBytes fmtf b) d (nonce b)"
proof
  assume "\<exists>b'. mine sum256 fmtf d b = Returns b'"
  then obtain b' where
    m: "mined sum256 (fixedBlockBytes fmtf b) (replicate (nat d) CHR ''0'') b b'"
    by (auto simp: mine_Returns_iff)
  show "solvable sum256 (fixedBlockBytes fmtf b) d (nonce b)"
  proof (cases "d = 0")
    case True
    then show ?thesis by (simp add: solvable_zero)
  next
    case False
    with assms have "\<not> HasPrefix (hash b) (replicate (nat d) CHR ''0'')"
      by (simp add: not_HasPrefix_empty)
    with m obtain k
      where "first_hit sum256 (fixedBlockBytes fmtf b) (replicate (nat d) CHR ''0'') (nonce b) k"
      by (auto simp: mined_def)
    with assms(1) show ?thesis by (blast intro: first_hit_solvable)
  qed
next
  assume "solvable sum256 (fixedBlockBytes fmtf b) d (nonce b)"
  with assms(1) show "\<exists>b'. mine sum256 fmtf d b = Returns b'"
    by (rule mine_returns)
qed

section \<open>An instance to run\<close>

lemma demo_create: "CreateBlockChain demo_sum256 demo_fmtf 1 17 = Returns demo_bc0"
  by code_simp

lemma demo_run: "run demo_sum256 demo_fmtf demo_bc0 demo_ops = Returns demo_bc"
  by code_simp

lemma demo_run6:
  "run demo_sum256 demo_fmtf demo_bc0
     [OpAddTxn (demo_txn 1) 21, OpAddTxn (demo_txn 2) 22, OpAddTxn (demo_txn 3) 23,
      OpAddTxn (demo_txn 4) 24, OpAddTxn (demo_txn 5) 25, OpAddTxn (demo_txn 6) 26] =
   Returns demo_bc6"
  by code_simp

section \<open>Proof of work of the sealed blocks\<close>

text \<open>
  Claim C1, at difficulty 0. The claim asks that the digest recomputed from a sealed
  block's transactions, previous hash, timestamp and nonce be its stored hash. The genesis
  block of \<open>CreateBlockChain(0)\<close> has the stored hash \<open>""\<close>, which is not the recomputed
  digest (a digest has 64 characters).
\<close>

theorem genesis_zero_difficulty_hash:
  "\<exists>g. CreateBlockChain sum256 fmtf 0 now =
          Returns \<lparr>current = None, chain = [g], difficulty = 0\<rparr> \<and>
       hash g = [] \<and> hash g \<noteq> block_digest sum256 fmtf g"
proof -
  have "[] \<noteq> block_digest sum256 fmtf g" for g
    using length_candidate [of sum256 "fixedBlockBytes fmtf g" "nonce g"]
    by (auto simp: block_digest_def)
  then show ?thesis by (simp add: CreateBlockChain_def mine_zero)
qed

text \<open>
  With a difficulty of at least 1 the property holds: in every chain that
  \<open>CreateBlockChain\<close> and then any calls of \<open>AddTxn\<close> and \<open>CommitBlock\<close> return, the stored
  hash of every sealed block is the digest recomputed from its fields and nonce, and has
  at least \<open>difficulty\<close> leading zeros.
\<close>

theorem sealed_blocks_valid:
  assumes "0 < d"
    and "CreateBlockChain sum256 fmtf d now = Returns bc0"
    and "run sum256 fmtf bc0 ops = Returns bc"
  shows "\<forall>i. i < length (chain bc) \<longrightarrow>
           hash (chain bc ! i) = block_digest sum256 fmtf (chain bc ! i) \<and>
           d \<le> int (leading_zeros (hash (chain bc ! i)))"
proof -
  from assms(2) have d0: "difficulty bc0 = d"
    by (auto simp: CreateBlockChain_Returns)
  with difficulty_run [OF assms(3)] have d: "difficulty bc = d" by simp
  from assms have "pow_inv sum256 fmtf bc"
    by (blast intro: pow_inv_CreateBlockChain pow_inv_run)
  with d have "list_all (valid_block sum256 fmtf d) (chain bc)"
    by (simp add: pow_inv_def)
  then have "valid_block sum256 fmtf d (chain bc ! i)" if "i < length (chain bc)" for i
    using that by (simp add: list_all_length)
  then show ?thesis
    unfolding valid_block_def by blast
qed

theorem sealed_blocks_valid_witness:
  "(0::int) < 1 \<and> CreateBlockChain demo_sum256 demo_fmtf 1 17 = Returns demo_bc0 \<and>
   run demo_sum256 demo_fmtf demo_bc0 demo_ops = Returns demo_bc \<and>
   hash (chain demo_bc ! 1) = block_digest demo_sum256 demo_fmtf (chain demo_bc ! 1)"
proof -
  have h: "(0::int) < 1" by simp
  have l: "1 < length (chain demo_bc)" by (simp add: demo_bc_def)
  from sealed_blocks_valid [OF h demo_create demo_run] l
  have "hash (chain demo_bc ! 1) = block_digest demo_sum256 demo_fmtf (chain demo_bc ! 1)"
    by blast
  with h demo_create demo_run show ?thesis by blast
qed

section \<open>Linkage of the sealed blocks\<close>

text \<open>
  Claim C2. After \<open>CreateBlockChain\<close> and any sequence of \<open>AddTxn\<close> and \<open>CommitBlock\<close>
  calls, every sealed block at an index \<open>i > 0\<close> has as \<open>prevHash\<close> the hash of the sealed
  block at \<open>i - 1\<close>, and so has the chain after one more operation. Every operation keeps
  the invariant \<open>link_inv\<close> behind it (\<open>link_inv_apply_op\<close>).
\<close>

theorem chain_linked:
  assumes "CreateBlockChain sum256 fmtf d now = Returns bc0"
    and "run sum256 fmtf bc0 ops = Returns bc"
  shows "(\<forall>i. 0 < i \<and> i < length (chain bc) \<longrightarrow>
            prevHash (chain bc ! i) = hash (chain bc ! (i - 1))) \<and>
         (\<forall>x bc'. apply_op sum256 fmtf bc x = Returns bc' \<longrightarrow>
            (\<forall>i. 0 < i \<and> i < length (chain bc') \<longrightarrow>
               prevHash (chain bc' ! i) = hash (chain bc' ! (i - 1))))"
proof -
  from assms have inv: "link_inv bc"
    by (blast intro: link_inv_CreateBlockChain link_inv_run)
  have at: "linked_at (chain c)" if "link_inv c" for c
    using that by (simp add: link_inv_def linked_iff_linked_at)
  have "linked_at (chain bc')" if "apply_op sum256 fmtf bc x = Returns bc'" for x bc'
    using inv that by (blast intro: at link_inv_apply_op)
  with at [OF inv] show ?thesis
    unfolding linked_at_def by blast
qed

theorem chain_linked_witness:
  "CreateBlockChain demo_sum256 demo_fmtf 1 17 = Returns demo_bc0 \<and>
   run demo_sum256 demo_fmtf demo_bc0 demo_ops = Returns demo_bc \<and>
   length (chain demo_bc) = 2 \<and>
   prevHash (chain demo_bc ! 1) = hash (chain demo_bc ! 0)"
proof -
  have l: "length (chain demo_bc) = 2" by (simp add: demo_bc_def)
  from chain_linked [OF demo_create demo_run]
  have "\<forall>i. 0 < i \<and> i < length (chain demo_bc) \<longrightarrow>
          prevHash (chain demo_bc ! i) = hash (chain demo_bc ! (i - 1))"
    by (rule conjunct1)
  from this [rule_format, of 1] l
  have "prevHash (chain demo_bc ! 1) = hash (chain demo_bc ! (1 - 1))"
    by simp
  with demo_create demo_run l show ?thesis by simp
qed

section \<open>Capacity of a block\<close>

text \<open>
  Claim C3. From a freshly created chain, six transactions (one more than
  \<open>MAX_TXNS_PER_BLOCK = 5\<close>) submitted by \<open>AddTxn\<close> with no \<open>CommitBlock\<close> in between leave
  exactly one sealed block after the genesis block, with the first five transactions in
  the order submitted, and a current block with the sixth transaction only. The sealed
  block is what \<open>mine\<close> returns for the block of the five transactions, created at the
  first call and linked to the genesis block: its hash has \<open>difficulty\<close> leading zeros and,
  for a difficulty of at least 1, is the digest of its fields and nonce. The current
  block is not mined and names the hash of the sealed block. The calls return when the
  search for the sealed block can succeed.
\<close>

theorem capacity_plus_one:
  assumes create: "CreateBlockChain sum256 fmtf d now = Returns bc0"
    and solv: "solvable sum256
       (fixedBlockBytes fmtf
          \<lparr>data = [t1, t2, t3, t4, t5], prevHash = hash (last (chain bc0)), unixTs = n1,
           nonce = 0, hash = []\<rparr>) d 0"
  shows "\<exists>g B. chain bc0 = [g] \<and>
           mine sum256 fmtf d
             \<lparr>data = [t1, t2, t3, t4, t5], prevHash = hash g, unixTs = n1, nonce = 0,
              hash = []\<rparr> = Returns B \<and>
           run sum256 fmtf bc0
             [OpAddTxn t1 n1, OpAddTxn t2 n2, OpAddTxn t3 n3, OpAddTxn t4 n4, OpAddTxn t5 n5,
              OpAddTxn t6 n6] =
             Returns \<lparr>current = Some \<lparr>data = [t6], prevHash = hash B, unixTs = n6, nonce = 0,
                                       hash = []\<rparr>,
                      chain = [g, B], difficulty = d\<rparr> \<and>
           data B = [t1, t2, t3, t4, t5] \<and> prevHash B = hash g \<and> unixTs B = n1 \<and>
           d \<le> int (leading_zeros (hash B)) \<and>
           (0 < d \<longrightarrow> hash B = block_digest sum256 fmtf B)"
proof -
  from create obtain g
    where m: "mine sum256 fmtf d \<lparr>data = [], prevHash = [], unixTs = now, nonce = 0, hash = []\<rparr> = Returns g"
      and bc0: "bc0 = \<lparr>current = None, chain = [g], difficulty = d\<rparr>"
    by (auto simp: CreateBlockChain_Returns)
  from mine_fields(4) [OF m] have d: "0 \<le> d" .
  let ?c5 = "\<lparr>data = [t1, t2, t3, t4, t5], prevHash = hash g, unixTs = n1, nonce = 0, hash = []\<rparr>"
  from solv bc0 have "solvable sum256 (fixedBlockBytes fmtf ?c5) d (nonce ?c5)"
    by simp
  from mine_returns [OF d this] obtain B where B: "mine sum256 fmtf d ?c5 = Returns B" ..
  from mine_fields [OF B] have fB: "data B = [t1, t2, t3, t4, t5]" "prevHash B = hash g"
    "unixTs B = n1" "d \<le> int (leading_zeros (hash B))"
    by simp_all
  have dg: "hash B = block_digest sum256 fmtf B" if "0 < d"
    using B that by (rule mine_digest) simp
  have "run sum256 fmtf bc0
             [OpAddTxn t1 n1, OpAddTxn t2 n2, OpAddTxn t3 n3, OpAddTxn t4 n4, OpAddTxn t5 n5,
              OpAddTxn t6 n6] =
        Returns \<lparr>current = Some \<lparr>data = [t6], prevHash = hash B, unixTs = n6, nonce = 0, hash = []\<rparr>,
                 chain = [g, B], difficulty = d\<rparr>"
    using B
    by (simp add: bc0 AddTxn_def CommitBlock_def newBlock_def lastBlock_def MAX_TXNS_PER_BLOCK_def)
  with B fB dg bc0 show ?thesis by simp
qed

theorem capacity_plus_one_witness:
  "CreateBlockChain demo_sum256 demo_fmtf 1 17 = Returns demo_bc0 \<and>
   solvable demo_sum256
     (fixedBlockBytes demo_fmtf
        \<lparr>data = [demo_txn 1, demo_txn 2, demo_txn 3, demo_txn 4, demo_txn 5],
         prevHash = hash (last (chain demo_bc0)), unixTs = 21, nonce = 0, hash = []\<rparr>) 1 0 \<and>
   run demo_sum256 demo_fmtf demo_bc0
     [OpAddTxn (demo_txn 1) 21, OpAddTxn (demo_txn 2) 22, OpAddTxn (demo_txn 3) 23,
      OpAddTxn (demo_txn 4) 24, OpAddTxn (demo_txn 5) 25, OpAddTxn (demo_txn 6) 26] =
     Returns demo_bc6 \<and>
   (\<exists>g B. chain demo_bc0 = [g] \<and>
      mine demo_sum256 demo_fmtf 1
        \<lparr>data = [demo_txn 1, demo_txn 2, demo_txn 3, demo_txn 4, demo_txn 5], prevHash = hash g,
         unixTs = 21, nonce = 0, hash = []\<rparr> = Returns B \<and>
      demo_bc6 =
        \<lparr>current = Some \<lparr>data = [demo_txn 6], prevHash = hash B, unixTs = 26, nonce = 0,
                          hash = []\<rparr>,
         chain = [g, B], difficulty = 1\<rparr> \<and>
      data B = [demo_txn 1, demo_txn 2, demo_txn 3, demo_txn 4, demo_txn 5] \<and>
      prevHash B = hash g \<and> unixTs B = 21 \<and> 1 \<le> int (leading_zeros (hash B)) \<and>
      hash B = block_digest demo_sum256 demo_fmtf B)"
proof -
  have "(1::int) \<le> int (leading_zeros (candidate demo_sum256
     (fixedBlockBytes demo_fmtf
        \<lparr>data = [demo_txn 1, demo_txn 2, demo_txn 3, demo_txn 4, demo_txn 5],
         prevHash = hash (last (chain demo_bc0)), unixTs = 21, nonce = 0, hash = []\<rparr>)
     (0 + of_nat 3)))"
    by code_simp
  then have h: "solvable demo_sum256
     (fixedBlockBytes demo_fmtf
        \<lparr>data = [demo_txn 1, demo_txn 2, demo_txn 3, demo_txn 4, demo_txn 5],
         prevHash = hash (last (chain demo_bc0)), unixTs = 21, nonce = 0, hash = []\<rparr>) 1 0"
    unfolding solvable_def by (intro exI [of _ 3]) simp
  from capacity_plus_one [OF demo_create h, where ?t6.0 = "demo_txn 6" and ?n2.0 = 22
      and ?n3.0 = 23 and ?n4.0 = 24 and ?n5.0 = 25 and ?n6.0 = 26]
  obtain g B where c: "chain demo_bc0 = [g]"
    and m: "mine demo_sum256 demo_fmtf 1
        \<lparr>data = [demo_txn 1, demo_txn 2, demo_txn 3, demo_txn 4, demo_txn 5], prevHash = hash g,
         unixTs = 21, nonce = 0, hash = []\<rparr> = Returns B"
    and r: "run demo_sum256 demo_fmtf demo_bc0
     [OpAddTxn (demo_txn 1) 21, OpAddTxn (demo_txn 2) 22, OpAddTxn (demo_txn 3) 23,
      OpAddTxn (demo_txn 4) 24, OpAddTxn (demo_txn 5) 25, OpAddTxn (demo_txn 6) 26] =
      Returns \<lparr>current = Some \<lparr>data = [demo_txn 6], prevHash = hash B, unixTs = 26, nonce = 0,
                          hash = []\<rparr>,
         chain = [g, B], difficulty = 1\<rparr>"
    and f: "data B = [demo_txn 1, demo_txn 2, demo_txn 3, demo_txn 4, demo_txn 5]"
      "prevHash B = hash g" "unixTs B = 21" "1 \<le> int (leading_zeros (hash B))"
      "hash B = block_digest demo_sum256 demo_fmtf B"
    by auto
  from r demo_run6 have e: "demo_bc6 =
        \<lparr>current = Some \<lparr>data = [demo_txn 6], prevHash = hash B, unixTs = 26, nonce = 0,
                          hash = []\<rparr>,
         chain = [g, B], difficulty = 1\<rparr>"
    by simp
  from c m e f have "\<exists>g B. chain demo_bc0 = [g] \<and>
      mine demo_sum256 demo_fmtf 1
        \<lparr>data = [demo_txn 1, demo_txn 2, demo_txn 3, demo_txn 4, demo_txn 5], prevHash = hash g,
         unixTs = 21, nonce = 0, hash = []\<rparr> = Returns B \<and>
      demo_bc6 =
        \<lparr>current = Some \<lparr>data = [demo_txn 6], prevHash = hash B, unixTs = 26, nonce = 0,
                          hash = []\<rparr>,
         chain = [g, B], difficulty = 1\<rparr> \<and>
      data B = [demo_txn 1, demo_txn 2, demo_txn 3, demo_txn 4, demo_txn 5] \<and>
      prevHash B = hash g \<and> unixTs B = 21 \<and> 1 \<le> int (leading_zeros (hash B)) \<and>
      hash B = block_digest demo_sum256 demo_fmtf B"
    by blast
  with demo_create h demo_run6 show ?thesis by blast
qed

section \<open>The genesis block\<close>

text \<open>
  Claim C4. For a difficulty \<open>d \<ge> 0\<close>, the chain that \<open>CreateBlockChain(d)\<close> returns has
  one sealed block, with no transaction, an empty previous hash and a hash with at least
  \<open>d\<close> leading characters \<open>0\<close>, and its current block is \<open>nil\<close>. The call returns exactly
  when some nonce after 0 has a digest with \<open>d\<close> leading zeros (for \<open>d = 0\<close> every nonce
  has).
\<close>

theorem CreateBlockChain_genesis:
  assumes "0 \<le> d"
  shows "((\<exists>bc. CreateBlockChain sum256 fmtf d now = Returns bc) \<longleftrightarrow>
            solvable sum256 (''[]'' @ fmt_int (sint now)) d 0) \<and>
         (\<forall>bc. CreateBlockChain sum256 fmtf d now = Returns bc \<longrightarrow>
            current bc = None \<and> difficulty bc = d \<and>
            (\<exists>g. chain bc = [g] \<and> data g = [] \<and> prevHash g = [] \<and>
                 d \<le> int (leading_zeros (hash g))))"
proof -
  let ?b = "\<lparr>data = [], prevHash = [], unixTs = now, nonce = 0, hash = []\<rparr>"
  have fixed: "fixedBlockBytes fmtf ?b = ''[]'' @ fmt_int (sint now)"
    by (simp add: fixedBlockBytes_def fmt_data_def)
  have "(\<exists>bc. CreateBlockChain sum256 fmtf d now = Returns bc) \<longleftrightarrow>
        (\<exists>g. mine sum256 fmtf d ?b = Returns g)"
    by (auto simp: CreateBlockChain_Returns)
  also have "\<dots> \<longleftrightarrow> solvable sum256 (fixedBlockBytes fmtf ?b) d (nonce ?b)"
    using assms by (intro mine_returns_iff) simp_all
  finally have ret: "(\<exists>bc. CreateBlockChain sum256 fmtf d now = Returns bc) \<longleftrightarrow>
            solvable sum256 (''[]'' @ fmt_int (sint now)) d 0"
    by (simp add: fixed)
  have "current bc = None \<and> difficulty bc = d \<and>
            (\<exists>g. chain bc = [g] \<and> data g = [] \<and> prevHash g = [] \<and>
                 d \<le> int (leading_zeros (hash g)))"
    if "CreateBlockChain sum256 fmtf d now = Returns bc" for bc
  proof -
    from that obtain g where g: "mine sum256 fmtf d ?b = Returns g"
      and bc: "bc = \<lparr>current = None, chain = [g], difficulty = d\<rparr>"
      by (auto simp: CreateBlockChain_Returns)
    from mine_fields [OF g] have "data g = []" "prevHash g = []" "d \<le> int (leading_zeros (hash g))"
      by simp_all
    with bc show ?thesis by simp
  qed
  with ret show ?thesis by blast
qed

theorem CreateBlockChain_genesis_witness:
  "(0::int) \<le> 1 \<and> CreateBlockChain demo_sum256 demo_fmtf 1 17 = Returns demo_bc0 \<and>
   solvable demo_sum256 (''[]'' @ fmt_int (sint (17 :: 64 word))) 1 0 \<and>
   (\<exists>g. chain demo_bc0 = [g] \<and> data g = [] \<and> prevHash g = [] \<and>
        1 \<le> int (leading_zeros (hash g)))"
proof -
  have h: "(0::int) \<le> 1" by simp
  from CreateBlockChain_genesis [OF h, of demo_sum256 demo_fmtf 17] demo_create h
  show ?thesis by blast
qed

section \<open>What the search returns\<close>

text \<open>
  Claim C5, as amended. For a difficulty \<open>d \<ge> 1\<close> and a block with an empty hash, \<open>mine\<close>
  returns exactly when some number of increments of the nonce (wrapping around as a
  64-bit \<open>int\<close>) gives a digest with \<open>d\<close> leading zeros. It then has run \<open>k \<ge> 1\<close>
  iterations, \<open>k\<close> the least such number, and has stored the nonce after \<open>k\<close> increments
  and its digest, leaving the other fields as they were. When the \<open>k\<close> increments do not
  wrap around, the final nonce is the smallest value greater than the initial nonce
  whose digest has \<open>d\<close> leading zeros.
\<close>

theorem mine_first_passing_nonce:
  assumes "0 < d" and "hash b = []"
  shows "((\<exists>b'. mine sum256 fmtf d b = Returns b') \<longleftrightarrow>
            solvable sum256 (fixedBlockBytes fmtf b) d (nonce b)) \<and>
         (\<forall>b'. mine sum256 fmtf d b = Returns b' \<longrightarrow>
            (\<exists>k. 0 < k \<and>
               b' = b\<lparr>nonce := nonce b + of_nat k,
                      hash := SHA256 sum256
                        (fixedBlockBytes fmtf b @ fmt_int (sint (nonce b + of_nat k)))\<rparr> \<and>
               d \<le> int (leading_zeros (hash b')) \<and>
               (\<forall>j. 0 < j \<and> j < k \<longrightarrow>
                  \<not> d \<le> int (leading_zeros (SHA256 sum256
                        (fixedBlockBytes fmtf b @ fmt_int (sint (nonce b + of_nat j)))))) \<and>
               (sint (nonce b) + int k < 2 ^ 63 \<longrightarrow>
                  sint (nonce b) < sint (nonce b') \<and>
                  (\<forall>m. sint (nonce b) < m \<and> m < sint (nonce b') \<longrightarrow>
                     \<not> d \<le> int (leading_zeros (SHA256 sum256
                           (fixedBlockBytes fmtf b @ fmt_int m)))))))"
proof (intro conjI allI impI)
  from assms show "(\<exists>b'. mine sum256 fmtf d b = Returns b') \<longleftrightarrow>
            solvable sum256 (fixedBlockBytes fmtf b) d (nonce b)"
    by (intro mine_returns_iff) simp_all
next
  fix b'
  let ?fixed = "fixedBlockBytes fmtf b"
  let ?zeros = "replicate (nat d) CHR ''0''"
  assume "mine sum256 fmtf d b = Returns b'"
  then have m: "mined sum256 ?fixed ?zeros b b'"
    by (simp add: mine_Returns_iff)
  from assms have "\<not> HasPrefix (hash b) ?zeros"
    by (simp add: not_HasPrefix_empty)
  with m obtain k where fh: "first_hit sum256 ?fixed ?zeros (nonce b) k"
    and b': "b' = after sum256 ?fixed b k"
    by (auto simp: mined_def)
  from assms(1) have d0: "0 \<le> d" by simp
  from fh have k: "0 < k"
    and hit: "d \<le> int (leading_zeros (candidate sum256 ?fixed (nonce b + of_nat k)))"
    and fails: "\<And>j. 0 < j \<Longrightarrow> j < k \<Longrightarrow>
        \<not> d \<le> int (leading_zeros (candidate sum256 ?fixed (nonce b + of_nat j)))"
    by (simp_all add: first_hit_def HasPrefix_zeros_int [OF d0])
  have wrap: "sint (nonce b) < sint (nonce b') \<and>
        (\<forall>m. sint (nonce b) < m \<and> m < sint (nonce b') \<longrightarrow>
           \<not> d \<le> int (leading_zeros (SHA256 sum256 (?fixed @ fmt_int m))))"
    if nw: "sint (nonce b) + int k < 2 ^ 63"
  proof -
    have s: "sint (nonce b') = sint (nonce b) + int k"
      using nw by (simp add: b' nonce_after sint_add_of_nat)
    have "\<not> d \<le> int (leading_zeros (SHA256 sum256 (?fixed @ fmt_int m)))"
      if "sint (nonce b) < m" "m < sint (nonce b')" for m
    proof -
      define j where "j = nat (m - sint (nonce b))"
      from that s have j: "0 < j" "j < k" and mj: "m = sint (nonce b) + int j"
        by (simp_all add: j_def)
      from j nw have "sint (nonce b + of_nat j) = sint (nonce b) + int j"
        by (intro sint_add_of_nat) simp
      with fails [OF j] mj show ?thesis
        by (simp add: candidate_def)
    qed
    with s k show ?thesis by simp
  qed
  show "\<exists>k. 0 < k \<and>
               b' = b\<lparr>nonce := nonce b + of_nat k,
                      hash := SHA256 sum256
                        (fixedBlockBytes fmtf b @ fmt_int (sint (nonce b + of_nat k)))\<rparr> \<and>
               d \<le> int (leading_zeros (hash b')) \<and>
               (\<forall>j. 0 < j \<and> j < k \<longrightarrow>
                  \<not> d \<le> int (leading_zeros (SHA256 sum256
                        (fixedBlockBytes fmtf b @ fmt_int (sint (nonce b + of_nat j)))))) \<and>
               (sint (nonce b) + int k < 2 ^ 63 \<longrightarrow>
                  sint (nonce b) < sint (nonce b') \<and>
                  (\<forall>m. sint (nonce b) < m \<and> m < sint (nonce b') \<longrightarrow>
                     \<not> d \<le> int (leading_zeros (SHA256 sum256
                           (fixedBlockBytes fmtf b @ fmt_int m)))))"
  proof (intro exI [of _ k] conjI impI)
    show "0 < k" by (rule k)
    show "b' = b\<lparr>nonce := nonce b + of_nat k,
                hash := SHA256 sum256 (?fixed @ fmt_int (sint (nonce b + of_nat k)))\<rparr>"
      by (simp add: b' after_def candidate_def)
    show "d \<le> int (leading_zeros (hash b'))"
      using hit by (simp add: b' hash_after)
    show "\<forall>j. 0 < j \<and> j < k \<longrightarrow>
       \<not> d \<le> int (leading_zeros (SHA256 sum256 (?fixed @ fmt_int (sint (nonce b + of_nat j)))))"
      using fails by (simp add: candidate_def)
  next
    assume nw: "sint (nonce b) + int k < 2 ^ 63"
    from wrap [OF nw] show "sint (nonce b) < sint (nonce b')" by simp
    from wrap [OF nw] show "\<forall>m. sint (nonce b) < m \<and> m < sint (nonce b') \<longrightarrow>
           \<not> d \<le> int (leading_zeros (SHA256 sum256 (?fixed @ fmt_int m)))" by simp
  qed
qed

theorem mine_first_passing_nonce_witness:
  "(0::int) < 1 \<and>
   mine demo_sum256 demo_fmtf 1 \<lparr>data = [], prevHash = [], unixTs = 17, nonce = 0, hash = []\<rparr> =
     Returns \<lparr>data = [], prevHash = [], unixTs = 17, nonce = 3,
       hash = ''0000000000000000000000000000000000000000000000000000000000000005''\<rparr> \<and>
   solvable demo_sum256
     (fixedBlockBytes demo_fmtf \<lparr>data = [], prevHash = [], unixTs = 17, nonce = 0, hash = []\<rparr>) 1 0"
proof -
  have h1: "(0::int) < 1" by simp
  have h2: "hash \<lparr>data = [], prevHash = [], unixTs = 17, nonce = 0, hash = []\<rparr> = []" by simp
  have m: "mine demo_sum256 demo_fmtf 1 \<lparr>data = [], prevHash = [], unixTs = 17, nonce = 0, hash = []\<rparr> =
     Returns \<lparr>data = [], prevHash = [], unixTs = 17, nonce = 3,
       hash = ''0000000000000000000000000000000000000000000000000000000000000005''\<rparr>"
    by code_simp
  from mine_first_passing_nonce [OF h1 h2, of demo_sum256 demo_fmtf] m
  have "solvable demo_sum256
     (fixedBlockBytes demo_fmtf \<lparr>data = [], prevHash = [], unixTs = 17, nonce = 0, hash = []\<rparr>) 1 0"
    by simp
  with h1 m show ?thesis by blast
qed

lemma hex256_minus_1: "hex256 (- 1) = replicate 64 CHR ''f''"
  by code_simp

lemma hex256_23:
  "hex256 23 = ''0000000000000000000000000000000000000000000000000000000000000017''"
  by code_simp

lemma wrap_run:
  "mine demo_sum256 demo_fmtf 1
     \<lparr>data = [], prevHash = [], unixTs = 0, nonce = 0x7FFFFFFFFFFFFFFF, hash = []\<rparr> =
   Returns \<lparr>data = [], prevHash = [], unixTs = 0, nonce = 0x8000000000000005,
            hash = ''0000000000000000000000000000000000000000000000000000000000000017''\<rparr>"
  by (simp add: mine_def Repeat_def mine_loop.simps HasPrefix_def fixedBlockBytes_def
      fmt_data_def fmt_int_def digits.simps digit_char_def SHA256_def demo_sum256_def
      hex256_minus_1 hex256_23)

text \<open>
  Claim C5 as stated fails where the nonce wraps around. A block with an empty hash and
  the greatest nonce, 9223372036854775807, is mined at difficulty 1, with the digest
  function of the instances, to a block with the nonce -9223372036854775803, which is
  not greater than the initial nonce; and whatever the digest function is, no run on
  this block returns a greater nonce.
\<close>

theorem mine_wraps_around:
  "mine demo_sum256 demo_fmtf 1
     \<lparr>data = [], prevHash = [], unixTs = 0, nonce = 0x7FFFFFFFFFFFFFFF, hash = []\<rparr> =
   Returns \<lparr>data = [], prevHash = [], unixTs = 0, nonce = 0x8000000000000005,
            hash = ''0000000000000000000000000000000000000000000000000000000000000017''\<rparr> \<and>
   sint (0x7FFFFFFFFFFFFFFF :: 64 word) = 9223372036854775807 \<and>
   sint (0x8000000000000005 :: 64 word) = - 9223372036854775803 \<and>
   (\<forall>sum256 fmtf b'.
      \<not> (mine sum256 fmtf 1
            \<lparr>data = [], prevHash = [], unixTs = 0, nonce = 0x7FFFFFFFFFFFFFFF, hash = []\<rparr> =
            Returns b' \<and>
          sint (0x7FFFFFFFFFFFFFFF :: 64 word) < sint (nonce b')))"
proof (intro conjI allI)
  show "mine demo_sum256 demo_fmtf 1
     \<lparr>data = [], prevHash = [], unixTs = 0, nonce = 0x7FFFFFFFFFFFFFFF, hash = []\<rparr> =
   Returns \<lparr>data = [], prevHash = [], unixTs = 0, nonce = 0x8000000000000005,
            hash = ''0000000000000000000000000000000000000000000000000000000000000017''\<rparr>"
    by (rule wrap_run)
  show m: "sint (0x7FFFFFFFFFFFFFFF :: 64 word) = 9223372036854775807" by simp
  show "sint (0x8000000000000005 :: 64 word) = - 9223372036854775803" by simp
  fix sum256 :: "string \<Rightarrow> 256 word" and fmtf :: "float64 \<Rightarrow> string" and b' :: Block
  have "sint (nonce b') < 2 ^ 63"
    using sint_lt [of "nonce b'"] by simp
  with m show "\<not> (mine sum256 fmtf 1
            \<lparr>data = [], prevHash = [], unixTs = 0, nonce = 0x7FFFFFFFFFFFFFFF, hash = []\<rparr> =
            Returns b' \<and>
          sint (0x7FFFFFFFFFFFFFFF :: 64 word) < sint (nonce b'))"
    by simp
qed

section \<open>The bytes that are hashed\<close>

subsection \<open>Decimal digits\<close>

lemma digit_char_code: "n < 10 \<Longrightarrow> of_char (digit_char n) = 48 + n"
proof -
  have "list_all (\<lambda>k. of_char (digit_char k) = 48 + k) [0..<10]"
    by code_simp
  then show "n < 10 \<Longrightarrow> of_char (digit_char n) = 48 + n"
    by (simp add: list_all_iff)
qed

lemma digit_char_inj:
  assumes "n < 10" "m < 10" "digit_char n = digit_char m"
  shows "n = m"
proof -
  from assms(3) have "(of_char (digit_char n) :: nat) = of_char (digit_char m)" by simp
  with assms(1,2) show ?thesis by (simp add: digit_char_code)
qed

lemma digit_char_not_minus: "n < 10 \<Longrightarrow> digit_char n \<noteq> CHR ''-''"
proof
  assume n: "n < 10" and "digit_char n = CHR ''-''"
  then have "(of_char (digit_char n) :: nat) = of_char CHR ''-''" by simp
  with n show False by (simp add: digit_char_code)
qed

lemma digits_not_Nil: "digits n \<noteq> []"
  by (subst digits.simps) simp

lemma minus_notin_digits: "CHR ''-'' \<notin> set (digits n)"
proof (induction n rule: digits.induct)
  case (1 n)
  show ?case
  proof (cases "n < 10")
    case True
    with digit_char_not_minus [of n] show ?thesis
      by (subst digits.simps) auto
  next
    case False
    with 1 digit_char_not_minus [of "n mod 10"] show ?thesis
      by (subst digits.simps) auto
  qed
qed

lemma digits_inj: "digits n = digits m \<Longrightarrow> n = m"
proof (induction n arbitrary: m rule: digits.induct)
  case (1 n)
  have dn: "digits n = (if n < 10 then [digit_char n] else digits (n div 10) @ [digit_char (n mod 10)])"
    by (rule digits.simps)
  have dm: "digits m = (if m < 10 then [digit_char m] else digits (m div 10) @ [digit_char (m mod 10)])"
    by (rule digits.simps)
  show ?case
  proof (cases "n < 10")
    case n: True
    show ?thesis
    proof (cases "m < 10")
      case True
      with n 1(2) dn dm show ?thesis by (auto dest: digit_char_inj)
    next
      case False
      with n 1(2) dn dm digits_not_Nil [of "m div 10"] show ?thesis by auto
    qed
  next
    case n: False
    show ?thesis
    proof (cases "m < 10")
      case True
      with n 1(2) dn dm digits_not_Nil [of "n div 10"] show ?thesis by auto
    next
      case False
      with n 1(2) dn dm have e: "digits (n div 10) = digits (m div 10)"
        and c: "digit_char (n mod 10) = digit_char (m mod 10)" by auto
      from 1(1) [OF n e] have "n div 10 = m div 10" .
      moreover from c have "n mod 10 = m mod 10"
        by (intro digit_char_inj) simp_all
      ultimately show ?thesis by (metis div_mult_mod_eq)
    qed
  qed
qed

lemma fmt_int_inj: "fmt_int i = fmt_int j \<Longrightarrow> i = j"
proof -
  assume e: "fmt_int i = fmt_int j"
  have hd: "digits n \<noteq> CHR ''-'' # s" "CHR ''-'' # s \<noteq> digits n" for n s
    using minus_notin_digits [of n] by (auto dest: sym)
  show "i = j"
  proof (cases "i < 0")
    case i: True
    show ?thesis
    proof (cases "j < 0")
      case True
      with i e have "digits (nat (- i)) = digits (nat (- j))" by (simp add: fmt_int_def)
      then have "nat (- i) = nat (- j)" by (rule digits_inj)
      with i True show ?thesis by simp
    next
      case False
      with i e hd [where n = "nat j"] show ?thesis by (auto simp: fmt_int_def)
    qed
  next
    case i: False
    show ?thesis
    proof (cases "j < 0")
      case True
      with i e hd [where n = "nat i"] show ?thesis by (auto simp: fmt_int_def)
    next
      case False
      with i e have "digits (nat i) = digits (nat j)" by (simp add: fmt_int_def)
      then have "nat i = nat j" by (rule digits_inj)
      with i False show ?thesis by simp
    qed
  qed
qed

subsection \<open>Fields that end at a delimiter\<close>

lemma split_at_delim:
  "d \<notin> set a \<Longrightarrow> d \<notin> set a' \<Longrightarrow> a @ d # x = a' @ d # x' \<Longrightarrow> a = a' \<and> x = x'"
proof (induction a arbitrary: a')
  case Nil
  then show ?case by (cases a') auto
next
  case (Cons c a)
  then show ?case by (cases a') auto
qed

lemma fmt_Transaction_inj:
  assumes "plain fmtf t" "plain fmtf t'"
    and "fmt_Transaction fmtf t @ r = fmt_Transaction fmtf t' @ r'"
  shows "rendered fmtf t = rendered fmtf t' \<and> r = r'"
proof -
  from assms(3) have
    "payer t @ CHR '' '' # (payee t @ CHR '' '' # (fmtf (amt t) @ CHR ''}'' # r)) =
     payer t' @ CHR '' '' # (payee t' @ CHR '' '' # (fmtf (amt t') @ CHR ''}'' # r'))"
    by (simp add: fmt_Transaction_def)
  with assms(1,2) have p: "payer t = payer t'"
    and 1: "payee t @ CHR '' '' # (fmtf (amt t) @ CHR ''}'' # r) =
            payee t' @ CHR '' '' # (fmtf (amt t') @ CHR ''}'' # r')"
    by (auto simp: plain_def dest: split_at_delim)
  from 1 assms(1,2) have q: "payee t = payee t'"
    and 2: "fmtf (amt t) @ CHR ''}'' # r = fmtf (amt t') @ CHR ''}'' # r'"
    by (auto simp: plain_def dest: split_at_delim)
  from 2 assms(1,2) have "fmtf (amt t) = fmtf (amt t') \<and> r = r'"
    by (auto simp: plain_def dest: split_at_delim)
  with p q show ?thesis by (simp add: rendered_def)
qed

lemma join_space_sep_rest:
  "join_space (map (fmt_Transaction fmtf) (t # ts)) @ CHR '']'' # r =
   fmt_Transaction fmtf t @ sep_rest fmtf ts r"
  by (induction ts arbitrary: t) simp_all

lemma fmt_data_Nil: "fmt_data fmtf [] @ r = ''[]'' @ r"
  by (simp add: fmt_data_def)

lemma fmt_data_Cons:
  "fmt_data fmtf (t # ts) @ r = CHR ''['' # fmt_Transaction fmtf t @ sep_rest fmtf ts r"
  using join_space_sep_rest [of fmtf t ts r] by (simp add: fmt_data_def)

lemma sep_rest_inj:
  "list_all (plain fmtf) ts \<Longrightarrow> list_all (plain fmtf) ts' \<Longrightarrow>
   sep_rest fmtf ts r = sep_rest fmtf ts' r' \<Longrightarrow>
   map (rendered fmtf) ts = map (rendered fmtf) ts' \<and> r = r'"
proof (induction ts arbitrary: ts')
  case Nil
  then show ?case by (cases ts') simp_all
next
  case (Cons t ts)
  show ?case
  proof (cases ts')
    case Nil
    with Cons.prems show ?thesis by simp
  next
    case (Cons t' us)
    with Cons.prems have pl: "plain fmtf t" "plain fmtf t'"
      and rest: "list_all (plain fmtf) ts" "list_all (plain fmtf) us"
      and eq: "fmt_Transaction fmtf t @ sep_rest fmtf ts r =
               fmt_Transaction fmtf t' @ sep_rest fmtf us r'"
      by simp_all
    from fmt_Transaction_inj [OF pl eq]
    have h: "rendered fmtf t = rendered fmtf t'" and e: "sep_rest fmtf ts r = sep_rest fmtf us r'"
      by simp_all
    from Cons.IH [OF rest e] h Cons show ?thesis by simp
  qed
qed

lemma fmt_data_inj:
  assumes "list_all (plain fmtf) ts" "list_all (plain fmtf) ts'"
    and "fmt_data fmtf ts @ r = fmt_data fmtf ts' @ r'"
  shows "map (rendered fmtf) ts = map (rendered fmtf) ts' \<and> r = r'"
proof (cases ts)
  case Nil
  show ?thesis
  proof (cases ts')
    case Nil
    with \<open>ts = []\<close> assms(3) show ?thesis by (simp add: fmt_data_Nil)
  next
    case (Cons t' us)
    with \<open>ts = []\<close> assms(3) show ?thesis
      by (simp add: fmt_data_Nil fmt_data_Cons fmt_Transaction_def)
  qed
next
  case (Cons t us)
  show ?thesis
  proof (cases ts')
    case Nil
    with Cons assms(3) show ?thesis
      by (simp add: fmt_data_Nil fmt_data_Cons fmt_Transaction_def)
  next
    case c': (Cons t' us')
    with Cons assms have pl: "plain fmtf t" "plain fmtf t'"
      and rest: "list_all (plain fmtf) us" "list_all (plain fmtf) us'"
      and eq: "fmt_Transaction fmtf t @ sep_rest fmtf us r =
               fmt_Transaction fmtf t' @ sep_rest fmtf us' r'"
      by (simp_all add: fmt_data_Cons)
    from fmt_Transaction_inj [OF pl eq]
    have h: "rendered fmtf t = rendered fmtf t'" and e: "sep_rest fmtf us r = sep_rest fmtf us' r'"
      by simp_all
    from sep_rest_inj [OF rest e] h Cons c' show ?thesis by simp
  qed
qed

subsection \<open>The serialization of a block\<close>

text \<open>
  Claim C6, as amended. The bytes \<open>mine\<close> builds from a block are a function of its
  transactions, previous hash and timestamp alone (the nonce and the hash have no part
  in them). Two blocks whose \<open>payer\<close> and \<open>payee\<close> strings have no space, whose rendered
  amounts have no closing brace and whose previous hashes have the same length give the
  same bytes only when they agree on the rendered transactions, in order, on the
  previous hash and on the timestamp.
\<close>

theorem fixedBlockBytes_stable_and_injective:
  assumes "list_all (plain fmtf) (data b1)" and "list_all (plain fmtf) (data b2)"
    and "length (prevHash b1) = length (prevHash b2)"
    and "fixedBlockBytes fmtf b1 = fixedBlockBytes fmtf b2"
  shows "map (rendered fmtf) (data b1) = map (rendered fmtf) (data b2) \<and>
         prevHash b1 = prevHash b2 \<and> unixTs b1 = unixTs b2 \<and>
         fixedBlockBytes fmtf (b1\<lparr>nonce := n, hash := h\<rparr>) = fixedBlockBytes fmtf b1"
proof -
  from assms(4)
  have eq: "fmt_data fmtf (data b1) @ (prevHash b1 @ fmt_int (sint (unixTs b1))) =
            fmt_data fmtf (data b2) @ (prevHash b2 @ fmt_int (sint (unixTs b2)))"
    by (simp add: fixedBlockBytes_def)
  from fmt_data_inj [OF assms(1,2) eq]
  have m: "map (rendered fmtf) (data b1) = map (rendered fmtf) (data b2)"
    and r: "prevHash b1 @ fmt_int (sint (unixTs b1)) = prevHash b2 @ fmt_int (sint (unixTs b2))"
    by simp_all
  from r assms(3) have p: "prevHash b1 = prevHash b2"
    and f: "fmt_int (sint (unixTs b1)) = fmt_int (sint (unixTs b2))"
    by simp_all
  from f have "sint (unixTs b1) = sint (unixTs b2)" by (rule fmt_int_inj)
  then have "unixTs b1 = unixTs b2" by (rule signed_word_eqI)
  moreover have "fixedBlockBytes fmtf (b1\<lparr>nonce := n, hash := h\<rparr>) = fixedBlockBytes fmtf b1"
    by (simp add: fixedBlockBytes_def)
  ultimately show ?thesis using m p by simp
qed

theorem fixedBlockBytes_stable_and_injective_witness:
  "list_all (plain demo_fmtf) [demo_txn 1, demo_txn 2] \<and>
   list_all (plain demo_fmtf) [demo_txn 2, demo_txn 1] \<and>
   fixedBlockBytes demo_fmtf
     \<lparr>data = [demo_txn 1, demo_txn 2], prevHash = ''ab'', unixTs = 17, nonce = 0, hash = []\<rparr> =
   fixedBlockBytes demo_fmtf
     \<lparr>data = [demo_txn 1, demo_txn 2], prevHash = ''ab'', unixTs = 17, nonce = 3, hash = ''00''\<rparr> \<and>
   unixTs \<lparr>data = [demo_txn 1, demo_txn 2], prevHash = ''ab'', unixTs = 17, nonce = 0, hash = []\<rparr> =
   unixTs \<lparr>data = [demo_txn 1, demo_txn 2], prevHash = ''ab'', unixTs = 17, nonce = 3, hash = ''00''\<rparr> \<and>
   fixedBlockBytes demo_fmtf
     \<lparr>data = [demo_txn 1, demo_txn 2], prevHash = ''ab'', unixTs = 17, nonce = 0, hash = []\<rparr> \<noteq>
   fixedBlockBytes demo_fmtf
     \<lparr>data = [demo_txn 2, demo_txn 1], prevHash = ''ab'', unixTs = 17, nonce = 0, hash = []\<rparr>"
proof -
  let ?b1 = "\<lparr>data = [demo_txn 1, demo_txn 2], prevHash = ''ab'', unixTs = 17, nonce = 0, hash = []\<rparr>"
  let ?b2 = "\<lparr>data = [demo_txn 2, demo_txn 1], prevHash = ''ab'', unixTs = 17, nonce = 0, hash = []\<rparr>"
  let ?b3 = "\<lparr>data = [demo_txn 1, demo_txn 2], prevHash = ''ab'', unixTs = 17, nonce = 3, hash = ''00''\<rparr>"
  have p1: "list_all (plain demo_fmtf) [demo_txn 1, demo_txn 2]" by code_simp
  have p2: "list_all (plain demo_fmtf) [demo_txn 2, demo_txn 1]" by code_simp
  have ne: "map (rendered demo_fmtf) [demo_txn 1, demo_txn 2] \<noteq>
            map (rendered demo_fmtf) [demo_txn 2, demo_txn 1]" by code_simp
  have q1: "list_all (plain demo_fmtf) (data ?b1)" using p1 by (simp only: Block.simps)
  have q2: "list_all (plain demo_fmtf) (data ?b2)" using p2 by (simp only: Block.simps)
  have q3: "list_all (plain demo_fmtf) (data ?b3)" using p1 by (simp only: Block.simps)
  have len12: "length (prevHash ?b1) = length (prevHash ?b2)" by (simp only: Block.simps)
  have len13: "length (prevHash ?b1) = length (prevHash ?b3)" by (simp only: Block.simps)
  have same: "fixedBlockBytes demo_fmtf ?b1 = fixedBlockBytes demo_fmtf ?b3"
    by (simp only: fixedBlockBytes_def Block.simps)
  from fixedBlockBytes_stable_and_injective [OF q1 q3 len13 same]
  have ts: "unixTs ?b1 = unixTs ?b3" by blast
  have diff: "fixedBlockBytes demo_fmtf ?b1 \<noteq> fixedBlockBytes demo_fmtf ?b2"
  proof
    assume "fixedBlockBytes demo_fmtf ?b1 = fixedBlockBytes demo_fmtf ?b2"
    from fixedBlockBytes_stable_and_injective [OF q1 q2 len12 this]
    have "map (rendered demo_fmtf) (data ?b1) = map (rendered demo_fmtf) (data ?b2)"
      by (rule conjunct1)
    then have "map (rendered demo_fmtf) [demo_txn 1, demo_txn 2] =
               map (rendered demo_fmtf) [demo_txn 2, demo_txn 1]"
      by (simp only: Block.simps)
    with ne show False by (rule notE)
  qed
  from p1 p2 same ts diff show ?thesis by (intro conjI)
qed

text \<open>
  Claim C6 as stated fails: the fields are written one after the other with no escape and
  no length, so distinct inputs can give the same bytes. A space in a name moves the
  border between \<open>payer\<close> and \<open>payee\<close>, and a digit moves between the previous hash and
  the timestamp, whatever the rendering of amounts is.
\<close>

theorem fixedBlockBytes_collisions:
  "\<forall>fmtf.
     fixedBlockBytes fmtf
       \<lparr>data = [\<lparr>payer = ''a b'', payee = ''c'', amt = 0\<rparr>], prevHash = [], unixTs = 0,
        nonce = 0, hash = []\<rparr> =
     fixedBlockBytes fmtf
       \<lparr>data = [\<lparr>payer = ''a'', payee = ''b c'', amt = 0\<rparr>], prevHash = [], unixTs = 0,
        nonce = 0, hash = []\<rparr> \<and>
     fixedBlockBytes fmtf \<lparr>data = [], prevHash = ''1'', unixTs = 23, nonce = 0, hash = []\<rparr> =
     fixedBlockBytes fmtf \<lparr>data = [], prevHash = ''12'', unixTs = 3, nonce = 0, hash = []\<rparr>"
proof (intro allI conjI)
  fix fmtf :: "float64 \<Rightarrow> string"
  show "fixedBlockBytes fmtf
       \<lparr>data = [\<lparr>payer = ''a b'', payee = ''c'', amt = 0\<rparr>], prevHash = [], unixTs = 0,
        nonce = 0, hash = []\<rparr> =
     fixedBlockBytes fmtf
       \<lparr>data = [\<lparr>payer = ''a'', payee = ''b c'', amt = 0\<rparr>], prevHash = [], unixTs = 0,
        nonce = 0, hash = []\<rparr>"
    by (simp add: fixedBlockBytes_def fmt_data_def fmt_Transaction_def)
  have "fmt_int 23 = ''23''" "fmt_int 3 = ''3''" by code_simp+
  then show "fixedBlockBytes fmtf \<lparr>data = [], prevHash = ''1'', unixTs = 23, nonce = 0, hash = []\<rparr> =
     fixedBlockBytes fmtf \<lparr>data = [], prevHash = ''12'', unixTs = 3, nonce = 0, hash = []\<rparr>"
    by (simp add: fixedBlockBytes_def fmt_data_def)
qed

section \<open>Determinism of the search\<close>

lemma mine_Panics_iff: "mine sum256 fmtf d b = Panics \<longleftrightarrow> d < 0"
  by (auto simp: mine_def Repeat_def split: option.splits)

lemma same_fields_same_bytes:
  "data b1 = data b2 \<Longrightarrow> prevHash b1 = prevHash b2 \<Longrightarrow> unixTs b1 = unixTs b2 \<Longrightarrow>
   fixedBlockBytes fmtf b1 = fixedBlockBytes fmtf b2"
  by (simp add: fixedBlockBytes_def)

lemma mine_same_pair:
  assumes bytes: "fixedBlockBytes fmtf b1 = fixedBlockBytes fmtf b2"
    and n: "nonce b1 = nonce b2" and h: "hash b1 = hash b2"
  shows "map_result (\<lambda>b. (nonce b, hash b)) (mine sum256 fmtf d b1) =
         map_result (\<lambda>b. (nonce b, hash b)) (mine sum256 fmtf d b2)"
proof (cases "mine sum256 fmtf d b1")
  case Panics
  then have "mine sum256 fmtf d b2 = Panics" by (simp add: mine_Panics_iff)
  with Panics show ?thesis by simp
next
  case Diverges
  with bytes n h have "mine sum256 fmtf d b2 = Diverges" by (simp add: mine_Diverges_iff)
  with Diverges show ?thesis by simp
next
  case (Returns c1)
  let ?fixed = "fixedBlockBytes fmtf b2"
  let ?zeros = "replicate (nat d) CHR ''0''"
  from Returns bytes have d: "0 \<le> d" and m: "mined sum256 ?fixed ?zeros b1 c1"
    by (simp_all add: mine_Returns_iff)
  show ?thesis
  proof (cases "HasPrefix (hash b1) ?zeros")
    case True
    with m have "c1 = b1" by (simp add: mined_def)
    moreover from True h d have "mine sum256 fmtf d b2 = Returns b2"
      by (simp add: mine_Returns_iff mined_def)
    ultimately show ?thesis using Returns n h by simp
  next
    case False
    with m obtain k where fh: "first_hit sum256 ?fixed ?zeros (nonce b1) k"
      and c1: "c1 = after sum256 ?fixed b1 k"
      by (auto simp: mined_def)
    from False fh n h d have "mine sum256 fmtf d b2 = Returns (after sum256 ?fixed b2 k)"
      by (auto simp: mine_Returns_iff mined_def)
    with Returns c1 n show ?thesis by (simp add: nonce_after hash_after)
  qed
qed

lemma demo_mine_ab_c:
  "mine demo_sum256 demo_fmtf 1
     \<lparr>data = [\<lparr>payer = ''a b'', payee = ''c'', amt = 0\<rparr>], prevHash = [], unixTs = 17,
      nonce = 0, hash = []\<rparr> =
   Returns \<lparr>data = [\<lparr>payer = ''a b'', payee = ''c'', amt = 0\<rparr>], prevHash = [], unixTs = 17,
      nonce = 3, hash = ''000000000000000000000000000000000000000000000000000000000000000e''\<rparr>"
  by code_simp

lemma demo_mine_a_bc:
  "mine demo_sum256 demo_fmtf 1
     \<lparr>data = [\<lparr>payer = ''a'', payee = ''b c'', amt = 0\<rparr>], prevHash = [], unixTs = 17,
      nonce = 0, hash = []\<rparr> =
   Returns \<lparr>data = [\<lparr>payer = ''a'', payee = ''b c'', amt = 0\<rparr>], prevHash = [], unixTs = 17,
      nonce = 3, hash = ''000000000000000000000000000000000000000000000000000000000000000e''\<rparr>"
  by code_simp

text \<open>
  Claim C7. Two runs of \<open>mine\<close>, both from the nonce 0 and an empty hash, on blocks that
  give the same bytes (as blocks with the same transactions, previous hash and timestamp
  do, \<open>same_fields_same_bytes\<close>) have the same outcome, with the same nonce and hash when
  they return. The pair is fixed by the bytes and the difficulty: the runs return exactly
  when some nonce after 0 has a digest with \<open>d\<close> leading zeros, and for \<open>d \<ge> 1\<close> the
  nonce returned is the first such nonce and the hash its digest.
\<close>

theorem mine_deterministic:
  assumes "fixedBlockBytes fmtf b1 = fixedBlockBytes fmtf b2"
    and "nonce b1 = 0" "hash b1 = []" "nonce b2 = 0" "hash b2 = []"
  shows "map_result (\<lambda>b. (nonce b, hash b)) (mine sum256 fmtf d b1) =
           map_result (\<lambda>b. (nonce b, hash b)) (mine sum256 fmtf d b2) \<and>
         (0 \<le> d \<longrightarrow>
            ((\<exists>b'. mine sum256 fmtf d b1 = Returns b') \<longleftrightarrow>
             solvable sum256 (fixedBlockBytes fmtf b1) d 0)) \<and>
         (0 < d \<longrightarrow>
            (\<forall>b'. mine sum256 fmtf d b1 = Returns b' \<longrightarrow>
               (\<exists>k. 0 < k \<and> nonce b' = of_nat k \<and>
                  hash b' = SHA256 sum256
                    (fixedBlockBytes fmtf b1 @ fmt_int (sint (of_nat k :: 64 word))) \<and>
                  d \<le> int (leading_zeros (hash b')) \<and>
                  (\<forall>j. 0 < j \<and> j < k \<longrightarrow>
                     \<not> d \<le> int (leading_zeros (SHA256 sum256
                           (fixedBlockBytes fmtf b1 @ fmt_int (sint (of_nat j :: 64 word)))))))))"
proof (intro conjI impI allI)
  from assms show "map_result (\<lambda>b. (nonce b, hash b)) (mine sum256 fmtf d b1) =
           map_result (\<lambda>b. (nonce b, hash b)) (mine sum256 fmtf d b2)"
    by (intro mine_same_pair) simp_all
next
  assume "0 \<le> d"
  with assms(2,3) mine_returns_iff [of d b1 sum256 fmtf]
  show "(\<exists>b'. mine sum256 fmtf d b1 = Returns b') \<longleftrightarrow>
        solvable sum256 (fixedBlockBytes fmtf b1) d 0"
    by simp
next
  fix b'
  let ?fixed = "fixedBlockBytes fmtf b1"
  let ?zeros = "replicate (nat d) CHR ''0''"
  assume d: "0 < d" and "mine sum256 fmtf d b1 = Returns b'"
  then have m: "mined sum256 ?fixed ?zeros b1 b'"
    by (simp add: mine_Returns_iff)
  from d assms(3) have "\<not> HasPrefix (hash b1) ?zeros"
    by (simp add: not_HasPrefix_empty)
  with m obtain k where fh: "first_hit sum256 ?fixed ?zeros (nonce b1) k"
    and b': "b' = after sum256 ?fixed b1 k"
    by (auto simp: mined_def)
  from d have d0: "0 \<le> d" by simp
  from fh assms(2) have "0 < k"
    and "d \<le> int (leading_zeros (candidate sum256 ?fixed (of_nat k)))"
    and "\<forall>j. 0 < j \<and> j < k \<longrightarrow>
        \<not> d \<le> int (leading_zeros (candidate sum256 ?fixed (of_nat j)))"
    by (simp_all add: first_hit_def HasPrefix_zeros_int [OF d0])
  with b' assms(2)
  show "\<exists>k. 0 < k \<and> nonce b' = of_nat k \<and>
          hash b' = SHA256 sum256 (?fixed @ fmt_int (sint (of_nat k :: 64 word))) \<and>
          d \<le> int (leading_zeros (hash b')) \<and>
          (\<forall>j. 0 < j \<and> j < k \<longrightarrow>
             \<not> d \<le> int (leading_zeros (SHA256 sum256
                   (?fixed @ fmt_int (sint (of_nat j :: 64 word))))))"
    by (intro exI [of _ k]) (simp add: nonce_after hash_after candidate_def)
qed

theorem mine_deterministic_witness:
  "\<lparr>payer = ''a b'', payee = ''c'', amt = 0\<rparr> \<noteq> \<lparr>payer = ''a'', payee = ''b c'', amt = 0\<rparr> \<and>
   fixedBlockBytes demo_fmtf
     \<lparr>data = [\<lparr>payer = ''a b'', payee = ''c'', amt = 0\<rparr>], prevHash = [], unixTs = 17,
      nonce = 0, hash = []\<rparr> =
   fixedBlockBytes demo_fmtf
     \<lparr>data = [\<lparr>payer = ''a'', payee = ''b c'', amt = 0\<rparr>], prevHash = [], unixTs = 17,
      nonce = 0, hash = []\<rparr> \<and>
   mine demo_sum256 demo_fmtf 1
     \<lparr>data = [\<lparr>payer = ''a b'', payee = ''c'', amt = 0\<rparr>], prevHash = [], unixTs = 17,
      nonce = 0, hash = []\<rparr> =
   Returns \<lparr>data = [\<lparr>payer = ''a b'', payee = ''c'', amt = 0\<rparr>], prevHash = [], unixTs = 17,
      nonce = 3, hash = ''000000000000000000000000000000000000000000000000000000000000000e''\<rparr> \<and>
   map_result (\<lambda>b. (nonce b, hash b))
     (mine demo_sum256 demo_fmtf 1
        \<lparr>data = [\<lparr>payer = ''a'', payee = ''b c'', amt = 0\<rparr>], prevHash = [], unixTs = 17,
         nonce = 0, hash = []\<rparr>) =
   Returns (3, ''000000000000000000000000000000000000000000000000000000000000000e'') \<and>
   solvable demo_sum256
     (fixedBlockBytes demo_fmtf
        \<lparr>data = [\<lparr>payer = ''a b'', payee = ''c'', amt = 0\<rparr>], prevHash = [], unixTs = 17,
         nonce = 0, hash = []\<rparr>) 1 0"
proof -
  let ?b1 = "\<lparr>data = [\<lparr>payer = ''a b'', payee = ''c'', amt = 0\<rparr>], prevHash = [], unixTs = 17,
      nonce = 0, hash = []\<rparr>"
  let ?b2 = "\<lparr>data = [\<lparr>payer = ''a'', payee = ''b c'', amt = 0\<rparr>], prevHash = [], unixTs = 17,
      nonce = 0, hash = []\<rparr>"
  have bytes: "fixedBlockBytes demo_fmtf ?b1 = fixedBlockBytes demo_fmtf ?b2"
    by (simp add: fixedBlockBytes_def fmt_data_def fmt_Transaction_def)
  have f: "nonce ?b1 = 0" "hash ?b1 = []" "nonce ?b2 = 0" "hash ?b2 = []"
    by simp_all
  note t = mine_deterministic [OF bytes f, of demo_sum256 1]
  from t have "map_result (\<lambda>b. (nonce b, hash b)) (mine demo_sum256 demo_fmtf 1 ?b1) =
               map_result (\<lambda>b. (nonce b, hash b)) (mine demo_sum256 demo_fmtf 1 ?b2)"
    by (rule conjunct1)
  then have p: "map_result (\<lambda>b. (nonce b, hash b)) (mine demo_sum256 demo_fmtf 1 ?b2) =
     Returns (3, ''000000000000000000000000000000000000000000000000000000000000000e'')"
    by (simp only: demo_mine_ab_c) simp
  from t have "(\<exists>b'. mine demo_sum256 demo_fmtf 1 ?b1 = Returns b') \<longleftrightarrow>
        solvable demo_sum256 (fixedBlockBytes demo_fmtf ?b1) 1 0"
    by simp
  then have s: "solvable demo_sum256 (fixedBlockBytes demo_fmtf ?b1) 1 0"
    by (simp only: demo_mine_ab_c) simp
  have ne: "\<lparr>payer = ''a b'', payee = ''c'', amt = 0\<rparr> \<noteq>
            \<lparr>payer = ''a'', payee = ''b c'', amt = (0 :: float64)\<rparr>"
    by simp
  from ne bytes demo_mine_ab_c p s show ?thesis by (intro conjI)
qed

section \<open>Committing without a current block\<close>

text \<open>
  Claim C8. In a chain state whose current block is \<open>nil\<close>, \<open>CommitBlock\<close> returns the
  state unchanged (sealed blocks, current block and difficulty); and in any state,
  committing twice is committing once.
\<close>

theorem CommitBlock_without_current:
  assumes "current bc = None"
  shows "CommitBlock sum256 fmtf bc = Returns bc \<and>
         bind_result (CommitBlock sum256 fmtf bc') (CommitBlock sum256 fmtf) =
           CommitBlock sum256 fmtf bc'"
proof
  from assms show "CommitBlock sum256 fmtf bc = Returns bc"
    by (simp add: CommitBlock_def)
  show "bind_result (CommitBlock sum256 fmtf bc') (CommitBlock sum256 fmtf) =
          CommitBlock sum256 fmtf bc'"
  proof (cases "current bc'")
    case None
    then show ?thesis by (simp add: CommitBlock_def)
  next
    case (Some c)
    then show ?thesis
      by (cases "mine sum256 fmtf (difficulty bc') c") (simp_all add: CommitBlock_def)
  qed
qed

theorem CommitBlock_without_current_witness:
  "current demo_bc0 = None \<and>
   CommitBlock demo_sum256 demo_fmtf demo_bc0 = Returns demo_bc0"
proof -
  have h: "current demo_bc0 = None" by (simp add: demo_bc0_def)
  from CommitBlock_without_current [OF h] h show ?thesis by blast
qed

section \<open>Sizes of the blocks\<close>

text \<open>
  Claim C9. In every state reached from \<open>CreateBlockChain\<close> by \<open>AddTxn\<close> and \<open>CommitBlock\<close>
  calls, the current block, when there is one, has between 1 and 5 transactions; every
  sealed block but the genesis block has between 1 and 5 transactions, and the genesis
  block has none.
\<close>

theorem block_sizes:
  assumes "CreateBlockChain sum256 fmtf d now = Returns bc0"
    and "run sum256 fmtf bc0 ops = Returns bc"
  shows "(\<forall>c. current bc = Some c \<longrightarrow> 1 \<le> length (data c) \<and> length (data c) \<le> 5) \<and>
         (\<forall>i. i < length (chain bc) \<longrightarrow>
            (if i = 0 then data (chain bc ! i) = []
             else 1 \<le> length (data (chain bc ! i)) \<and> length (data (chain bc ! i)) \<le> 5)) \<and>
         chain bc \<noteq> []"
proof -
  from assms have inv: "size_inv bc"
    by (blast intro: size_inv_CreateBlockChain size_inv_run)
  then obtain g bs where ch: "chain bc = g # bs"
    by (cases "chain bc") (simp_all add: size_inv_def)
  with inv have g: "data g = []" and bs: "list_all filled bs"
    by (simp_all add: size_inv_def)
  have "1 \<le> length (data (chain bc ! i)) \<and> length (data (chain bc ! i)) \<le> 5"
    if "i < length (chain bc)" "i \<noteq> 0" for i
  proof -
    from that ch obtain j where "i = Suc j" "j < length bs"
      by (cases i) simp_all
    with bs ch show ?thesis
      by (simp add: list_all_length filled_def MAX_TXNS_PER_BLOCK_def)
  qed
  moreover have "1 \<le> length (data c) \<and> length (data c) \<le> 5" if "current bc = Some c" for c
    using inv that by (simp add: size_inv_def filled_def MAX_TXNS_PER_BLOCK_def)
  ultimately show ?thesis using ch g by simp
qed

theorem block_sizes_witness:
  "CreateBlockChain demo_sum256 demo_fmtf 1 17 = Returns demo_bc0 \<and>
   run demo_sum256 demo_fmtf demo_bc0 demo_ops = Returns demo_bc \<and>
   (\<exists>c. current demo_bc = Some c \<and> 1 \<le> length (data c) \<and> length (data c) \<le> 5) \<and>
   length (chain demo_bc) = 2 \<and> data (chain demo_bc ! 0) = [] \<and>
   1 \<le> length (data (chain demo_bc ! 1)) \<and> length (data (chain demo_bc ! 1)) \<le> 5"
proof -
  note s = block_sizes [OF demo_create demo_run]
  have l: "length (chain demo_bc) = 2" by (simp add: demo_bc_def)
  obtain c where c: "current demo_bc = Some c" by (simp add: demo_bc_def)
  with s have "1 \<le> length (data c) \<and> length (data c) \<le> 5" by blast
  moreover from s have all: "\<forall>i. i < length (chain demo_bc) \<longrightarrow>
            (if i = 0 then data (chain demo_bc ! i) = []
             else 1 \<le> length (data (chain demo_bc ! i)) \<and> length (data (chain demo_bc ! i)) \<le> 5)"
    by blast
  from all [rule_format, of 0] l have "data (chain demo_bc ! 0) = []" by simp
  moreover from all [rule_format, of 1] l
  have "1 \<le> length (data (chain demo_bc ! 1)) \<and> length (data (chain demo_bc ! 1)) \<le> 5"
    by simp
  ultimately show ?thesis using demo_create demo_run l c by blast
qed

section \<open>Mining with difficulty zero\<close>

text \<open>
  Claim C10. When \<open>mine\<close> is called with difficulty 0 on a block whose hash is the empty
  string, the loop body is not executed: the call returns the block as it was, with the
  empty hash and the nonce it had, whatever the digest function is. So
  \<open>CreateBlockChain(0)\<close> returns a chain whose genesis block has the hash \<open>""\<close> and the
  nonce 0.
\<close>

theorem mine_difficulty_zero:
  "mine sum256 fmtf 0 (b\<lparr>hash := []\<rparr>) = Returns (b\<lparr>hash := []\<rparr>) \<and>
   CreateBlockChain sum256 fmtf 0 now =
     Returns \<lparr>current = None,
              chain = [\<lparr>data = [], prevHash = [], unixTs = now, nonce = 0, hash = []\<rparr>],
              difficulty = 0\<rparr>"
  by (simp add: CreateBlockChain_def mine_zero)

end
